theory Spec2Isabelle
  imports Complex_Main "HOL-Library.Monad_Syntax"
begin

section \<open>Conference seating simulation: the model\<close>

text \<open>
  A shallow embedding of the seating simulation (version 2.5.5, the variant with a
  dynamic block count).  Grid coordinates, counters and slider values are JavaScript
  numbers that only ever hold integers, so they are \<^typ>\<open>int\<close>; preference weights and
  random draws are \<^typ>\<open>real\<close> (floating-point rounding is not modelled).  A value that
  may be \<open>undefined\<close> or \<open>null\<close> is an \<open>option\<close>, and so is a computation that may throw
  (\<open>None\<close> is the thrown exception, caught at the enclosing \<open>try\<close>).
\<close>

subsection \<open>Constants\<close>

datatype cell = EMPTY | SEAT | CORRIDOR | GATE | SEATED_AGENT | STANDING

definition SEAT_ROWS_START :: int where "SEAT_ROWS_START = 6"
definition SEAT_ROWS_END :: int where "SEAT_ROWS_END = 14"
definition BACK_ROWS_START :: int where "BACK_ROWS_START = 14"
definition GATE_POSITIONS :: "int list" where "GATE_POSITIONS = [10, 34, 58]"
definition PATH_ROW_RANGE_START :: int where "PATH_ROW_RANGE_START = 16"
definition DEFAULT_ROW_THRESHOLD :: int where "DEFAULT_ROW_THRESHOLD = 5"

text \<open>\<open>xs[i]\<close> on a JavaScript array: \<open>undefined\<close> outside the index range.\<close>

definition nth_opt :: "'a list \<Rightarrow> int \<Rightarrow> 'a option" where
  "nth_opt xs i = (if 0 \<le> i \<and> i < int (length xs) then Some (xs ! nat i) else None)"

subsection \<open>Randomness\<close>

text \<open>
  \<open>Math.random()\<close> is the \<open>k\<close>-th value of a stream \<open>rng\<close>; every function that draws
  takes the index of the next draw and returns the index after its last draw.
  \<open>blocks.sort(() => Math.random() - 0.5)\<close> depends on the sorting algorithm of the
  JavaScript engine, which is not part of the program: \<open>shuffle\<close> stands for it, taking
  the next draw index and the array and returning the reordered array and the index
  after the comparator's draws.
\<close>

record env =
  rng :: "nat \<Rightarrow> real"
  shuffle :: "nat \<Rightarrow> int list \<Rightarrow> int list \<times> nat"

subsection \<open>ConfigManager\<close>

text \<open>
  The configuration object maps keys to values; the sliders store \<open>parseInt\<close> results
  and the checkboxes store booleans.  A comparison coerces a boolean to 0 or 1.
  Listeners are identified by their position in the listener set (iteration is in
  insertion order); \<open>notified\<close> logs every callback invocation, whether or not the
  callback throws (a throwing callback is caught and the iteration goes on).
\<close>

datatype jsval = Num int | Bool bool

fun toNumber :: "jsval \<Rightarrow> int" where
  "toNumber (Num n) = n"
| "toNumber (Bool b) = (if b then 1 else 0)"

record configManager =
  cm_config :: "string \<Rightarrow> jsval option"
  listeners :: "nat list"
  notified :: "(nat \<times> string \<times> jsval) list"

definition validations :: "string \<Rightarrow> (int \<Rightarrow> bool) option" where
  "validations key =
     (if key = ''NUM_AGENTS'' then Some (\<lambda>v. v \<ge> 50 \<and> v \<le> 500)
      else if key = ''SPEED'' then Some (\<lambda>v. v \<ge> 10 \<and> v \<le> 500)
      else if key = ''MAX_TIME'' then Some (\<lambda>v. v \<ge> 200 \<and> v \<le> 1000)
      else if key = ''NUM_BLOCKS'' then Some (\<lambda>v. v \<ge> 2 \<and> v \<le> 6)
      else if key = ''SOCIAL_DISTANCE'' then Some (\<lambda>v. v \<ge> 0 \<and> v \<le> 5)
      else if key = ''BACK_PREF'' then Some (\<lambda>v. v \<ge> 0 \<and> v \<le> 5)
      else if key = ''AISLE_PREF'' then Some (\<lambda>v. v \<ge> 0 \<and> v \<le> 5)
      else None)"

definition validate :: "string \<Rightarrow> jsval \<Rightarrow> bool" where
  "validate key v =
     (case validations key of None \<Rightarrow> True | Some validator \<Rightarrow> validator (toNumber v))"

text \<open>
  One iteration of the search loop of \<open>calculateCorridorWidth\<close>, on the pair
  \<open>(bestCorridorWidth, bestSeatsPerBlock)\<close>.  \<open>Math.floor(a / b)\<close> on integers with
  \<open>b \<noteq> 0\<close> is \<open>a div b\<close>; the block count is 4 in the constructor and is validated
  to lie in 2..6 before every later call, so \<open>numBlocks = 0\<close> does not arise.
\<close>

definition corridorWidthStep :: "int \<Rightarrow> int \<Rightarrow> int \<Rightarrow> int \<times> int \<Rightarrow> int \<times> int" where
  "corridorWidthStep totalCols numBlocks corridorWidth best =
     (let numCorridors = numBlocks + 1;
          totalCorridorSpace = numCorridors * corridorWidth;
          remainingForSeats = totalCols - totalCorridorSpace;
          seatsPerBlock = remainingForSeats div numBlocks
      in if seatsPerBlock > snd best \<and> remainingForSeats \<ge> 0
         then (corridorWidth, seatsPerBlock) else best)"

definition calculateCorridorWidth :: "int \<Rightarrow> int \<Rightarrow> int" where
  "calculateCorridorWidth totalCols numBlocks =
     fst (fold (corridorWidthStep totalCols numBlocks) [2 .. 6] (2, 0))"

text \<open>
  The method on the manager: reads \<open>COLS\<close> and \<open>NUM_BLOCKS\<close> and stores
  \<open>CORRIDOR_WIDTH\<close>.  With a key missing the arithmetic yields \<open>NaN\<close>, no comparison
  succeeds and the width stays 2.  The update of the page's display element is not
  modelled.
\<close>

definition cm_calculateCorridorWidth :: "configManager \<Rightarrow> configManager" where
  "cm_calculateCorridorWidth m =
     (let w = (case (cm_config m ''COLS'', cm_config m ''NUM_BLOCKS'') of
                 (Some c, Some n) \<Rightarrow> calculateCorridorWidth (toNumber c) (toNumber n)
               | _ \<Rightarrow> 2)
      in m\<lparr>cm_config := (cm_config m)(''CORRIDOR_WIDTH'' \<mapsto> Num w)\<rparr>)"

definition notifyListeners :: "configManager \<Rightarrow> string \<Rightarrow> jsval \<Rightarrow> configManager" where
  "notifyListeners m key v =
     m\<lparr>notified := notified m @ map (\<lambda>callback. (callback, key, v)) (listeners m)\<rparr>"

definition cm_set :: "configManager \<Rightarrow> string \<Rightarrow> jsval \<Rightarrow> configManager" where
  "cm_set m key v =
     (if validate key v then
        let m1 = m\<lparr>cm_config := (cm_config m)(key \<mapsto> v)\<rparr>;
            m2 = (if key = ''NUM_BLOCKS'' then cm_calculateCorridorWidth m1 else m1)
        in notifyListeners m2 key v
      else m)"

definition cm_get :: "configManager \<Rightarrow> string \<Rightarrow> jsval option" where
  "cm_get m key = cm_config m key"

definition cm_new :: configManager where
  "cm_new = cm_calculateCorridorWidth
     \<lparr>cm_config = [''ROWS'' \<mapsto> Num 20, ''COLS'' \<mapsto> Num 68, ''NUM_BLOCKS'' \<mapsto> Num 4,
         ''FEATURE_ASSIGNED_SEATS'' \<mapsto> Bool True, ''FEATURE_COLOR_BY_BLOCK'' \<mapsto> Bool True,
         ''NUM_AGENTS'' \<mapsto> Num 384, ''SPEED'' \<mapsto> Num 20, ''MAX_TIME'' \<mapsto> Num 500,
         ''SOCIAL_DISTANCE'' \<mapsto> Num 3, ''BACK_PREF'' \<mapsto> Num 3, ''AISLE_PREF'' \<mapsto> Num 2],
      listeners = [], notified = []\<rparr>"

definition addListener :: "configManager \<Rightarrow> nat \<Rightarrow> configManager" where
  "addListener m callback =
     (if callback \<in> set (listeners m) then m else m\<lparr>listeners := listeners m @ [callback]\<rparr>)"

definition removeListener :: "configManager \<Rightarrow> nat \<Rightarrow> configManager" where
  "removeListener m callback = m\<lparr>listeners := removeAll callback (listeners m)\<rparr>"

subsection \<open>Utils\<close>

text \<open>
  \<open>weightedChoice\<close>: the loop walks items and weights in step; a missing weight makes
  the remainder \<open>NaN\<close>, after which no comparison succeeds.  The result is \<open>None\<close> where
  the source returns \<open>undefined\<close> (an empty \<open>items\<close>).  On arrays nothing in the \<open>try\<close>
  block throws.  No draw is made when the total is zero.
\<close>

fun weightedChoice_loop :: "'a list \<Rightarrow> real list \<Rightarrow> real \<Rightarrow> 'a option" where
  "weightedChoice_loop [] ws rnd = None"
| "weightedChoice_loop (x # xs) [] rnd = None"
| "weightedChoice_loop (x # xs) (w # ws) rnd =
     (if rnd - w \<le> 0 then Some x else weightedChoice_loop xs ws (rnd - w))"

definition weightedChoice :: "env \<Rightarrow> 'a list \<Rightarrow> real list \<Rightarrow> nat \<Rightarrow> 'a option \<times> nat" where
  "weightedChoice e items weights k =
     (let total = sum_list weights in
      if total = 0 then (nth_opt items 0, k)
      else let rnd = rng e k * total in
        (case weightedChoice_loop items weights rnd of
           Some x \<Rightarrow> (Some x, k + 1)
         | None \<Rightarrow> (nth_opt items (int (length items) - 1), k + 1)))"

definition isValidPosition :: "int \<Rightarrow> int \<Rightarrow> int \<Rightarrow> int \<Rightarrow> bool" where
  "isValidPosition row col maxRow maxCol \<longleftrightarrow> row \<ge> 0 \<and> row < maxRow \<and> col \<ge> 0 \<and> col < maxCol"

subsection \<open>The grid\<close>

text \<open>
  The grid is an array of row arrays.  \<open>nrows\<close> is \<open>grid.length\<close>, \<open>ncols0\<close> is
  \<open>grid[0].length\<close>, and \<open>cells g (r, c)\<close> is the element \<open>grid[r][c]\<close> of an existing row
  (\<open>None\<close> where the row has no such element).  Reading or writing \<open>grid[r][c]\<close> throws
  a \<open>TypeError\<close> when row \<open>r\<close> does not exist; writing beyond the end of a row stores
  the element and lengthens the row.  A \<open>null\<close> grid throws on every access, as the grid
  without rows does, and is represented by it.
\<close>

record grid =
  nrows :: int
  ncols0 :: int
  cells :: "int \<times> int \<Rightarrow> cell option"

definition null_grid :: grid where
  "null_grid = \<lparr>nrows = 0, ncols0 = 0, cells = (\<lambda>rc. None)\<rparr>"

definition cellAt :: "grid \<Rightarrow> int \<Rightarrow> int \<Rightarrow> cell option option" where
  "cellAt g r c = (if 0 \<le> r \<and> r < nrows g then Some (cells g (r, c)) else None)"

definition grid_set :: "grid \<Rightarrow> int \<Rightarrow> int \<Rightarrow> cell \<Rightarrow> grid option" where
  "grid_set g r c v =
     (if 0 \<le> r \<and> r < nrows g
      then Some (g\<lparr>cells := (cells g)((r, c) := Some v),
                   ncols0 := (if r = 0 \<and> c \<ge> ncols0 g then c + 1 else ncols0 g)\<rparr>)
      else None)"

text \<open>A loop whose body may throw: the first exception ends it.\<close>

fun foldM :: "('a \<Rightarrow> 's \<Rightarrow> 's option) \<Rightarrow> 'a list \<Rightarrow> 's \<Rightarrow> 's option" where
  "foldM f [] s = Some s"
| "foldM f (x # xs) s = (case f x s of None \<Rightarrow> None | Some s' \<Rightarrow> foldM f xs s')"

subsection \<open>Simulation configuration\<close>

text \<open>
  The fields of the configuration object that the engine reads.  \<open>BACK_PREF\<close> is real
  because the engine scales it by 1.5, 1.0 or 0.5 for each spawned agent.
\<close>

record sim_config =
  ROWS :: int
  COLS :: int
  NUM_BLOCKS :: int
  CORRIDOR_WIDTH :: int
  FEATURE_ASSIGNED_SEATS :: bool
  NUM_AGENTS :: int
  MAX_TIME :: int
  SOCIAL_DISTANCE :: int
  BACK_PREF :: real
  AISLE_PREF :: int

subsection \<open>GridBuilder\<close>

text \<open>
  \<open>blocks[i] = [start, end]\<close> for \<open>i = 0 .. numBlocks - 1\<close>: the list's index is the
  object's key.  With \<open>numBlocks \<le> 0\<close> the loop does not run.
\<close>

definition generateSeatBlocks :: "int \<Rightarrow> int \<Rightarrow> int \<Rightarrow> (int \<times> int) list" where
  "generateSeatBlocks cols numBlocks corridorWidth =
     (let totalSeat = cols - (numBlocks + 1) * corridorWidth;
          blockWidth = totalSeat div numBlocks
      in map (\<lambda>i. let start = corridorWidth + i * (blockWidth + corridorWidth);
                       end = start + blockWidth - 1
                   in (start, end))
             [0 .. numBlocks - 1])"

text \<open>The local \<open>blockWidth\<close> of \<open>generateSeatBlocks\<close>.\<close>

definition blockWidth_of :: "int \<Rightarrow> int \<Rightarrow> int \<Rightarrow> int" where
  "blockWidth_of cols numBlocks corridorWidth =
     (cols - (numBlocks + 1) * corridorWidth) div numBlocks"

definition generateCorridorSegments :: "int \<Rightarrow> (int \<times> int) list \<Rightarrow> int \<Rightarrow> int list list" where
  "generateCorridorSegments cols seatBlocks corridorWidth =
     (let leftMargin = [0 .. corridorWidth - 1] in
      leftMargin #
      filter (\<lambda>validSeg. validSeg \<noteq> [])
        (map (\<lambda>(start, end).
                filter (\<lambda>col. col < cols) (map (\<lambda>j. end + 1 + j) [0 .. corridorWidth - 1]))
             seatBlocks))"

definition blank_grid :: "int \<Rightarrow> int \<Rightarrow> grid" where
  "blank_grid rows cols =
     \<lparr>nrows = rows, ncols0 = (if rows > 0 then cols else 0),
      cells = (\<lambda>(r, c). if 0 \<le> r \<and> r < rows \<and> 0 \<le> c \<and> c < cols then Some EMPTY else None)\<rparr>"

definition fillSeats :: "(int \<times> int) list \<Rightarrow> grid \<Rightarrow> grid option" where
  "fillSeats seatBlocks =
     foldM (\<lambda>r. foldM (\<lambda>(c0, c1). foldM (\<lambda>c g. grid_set g r c SEAT) [c0 .. c1]) seatBlocks)
           [SEAT_ROWS_START .. SEAT_ROWS_END - 1]"

definition fillCorridors :: "int \<Rightarrow> int list list \<Rightarrow> grid \<Rightarrow> grid option" where
  "fillCorridors rows corridorSegs =
     foldM (\<lambda>r. foldM (\<lambda>seg. foldM (\<lambda>c g.
              case cellAt g r c of
                None \<Rightarrow> None
              | Some v \<Rightarrow> if v = Some EMPTY then grid_set g r c CORRIDOR else Some g) seg)
            corridorSegs)
           [0 .. rows - 1]"

text \<open>
  \<open>Array(n)\<close> throws a \<open>RangeError\<close> for negative \<open>n\<close>; the rows are only created when
  there is at least one.  Every exception ends in the \<open>catch\<close>, which returns \<open>null\<close>.
\<close>

definition buildGrid :: "sim_config \<Rightarrow> grid option" where
  "buildGrid config =
     (if ROWS config < 0 \<or> (ROWS config > 0 \<and> COLS config < 0) then None
      else do {
        let grid = blank_grid (ROWS config) (COLS config);
        let seatBlocks = generateSeatBlocks (COLS config) (NUM_BLOCKS config) (CORRIDOR_WIDTH config);
        let corridorSegs = generateCorridorSegments (COLS config) seatBlocks (CORRIDOR_WIDTH config);
        g1 \<leftarrow> fillSeats seatBlocks grid;
        g2 \<leftarrow> fillCorridors (ROWS config) corridorSegs g1;
        let gates = filter (\<lambda>c. c < COLS config) GATE_POSITIONS;
        foldM (\<lambda>c g. grid_set g (ROWS config - 1) c GATE) gates g2
      })"

subsection \<open>PathfindingEngine\<close>

type_synonym path = "(int \<times> int) list"

text \<open>
  \<open>for (x = a; x !== stop; x += step) path.push(cell x)\<close>: the loop ends only when the
  counter hits \<open>stop\<close> exactly, so it is a partial function (\<open>None\<close>: it runs forever).
\<close>

partial_function (option) for_ne ::
  "int \<Rightarrow> int \<Rightarrow> int \<Rightarrow> (int \<Rightarrow> int \<times> int) \<Rightarrow> path \<Rightarrow> path option" where
  "for_ne x stop step cell path =
     (if x = stop then Some path else for_ne (x + step) stop step cell (path @ [cell x]))"

text \<open>\<open>for (x = a; x >= lo; x--) path.push(cell x)\<close>.\<close>

function for_down :: "int \<Rightarrow> int \<Rightarrow> (int \<Rightarrow> int \<times> int) \<Rightarrow> path \<Rightarrow> path" where
  "for_down x lo cell path =
     (if x \<ge> lo then for_down (x - 1) lo cell (path @ [cell x]) else path)"
  by pat_completeness auto
termination
  by (relation "measure (\<lambda>(x, lo, cell, path). nat (x - lo + 1))") auto

declare for_down.simps [simp del]

declare for_ne.simps [code]

text \<open>
  Nothing in the \<open>try\<close> block can throw on integer coordinates, so the \<open>catch\<close> (which
  returns the empty path) has no branch here.
\<close>

definition computeSimplePath :: "int \<times> int \<Rightarrow> int \<Rightarrow> int \<times> int \<Rightarrow> int \<Rightarrow> path option" where
  "computeSimplePath spawn corridor seat row0 =
     (case spawn of (r, c) \<Rightarrow> case seat of (r1, c1) \<Rightarrow>
      do {
        p1 \<leftarrow> (if r \<noteq> row0
               then let step = (if r > row0 then - 1 else 1)
                    in for_ne (r + step) (row0 + step) step (\<lambda>rr. (rr, c)) []
               else Some []);
        p2 \<leftarrow> (if c \<noteq> corridor
               then let step = (if corridor > c then 1 else - 1)
                    in for_ne (c + step) (corridor + step) step (\<lambda>cc. (row0, cc)) p1
               else Some p1);
        let p3 = (if row0 > r1 then for_down (row0 - 1) r1 (\<lambda>rr. (rr, corridor)) p2 else p2);
        (if corridor \<noteq> c1
         then let step = (if c1 > corridor then 1 else - 1)
              in for_ne (corridor + step) (c1 + step) step (\<lambda>cc. (r1, cc)) p3
         else Some p3)
      })"

text \<open>\<open>gates.findIndex(p)\<close>: the first index whose element satisfies \<open>p\<close>, or \<open>-1\<close>.\<close>

fun findIndex :: "('a \<Rightarrow> bool) \<Rightarrow> 'a list \<Rightarrow> int" where
  "findIndex p [] = - 1"
| "findIndex p (x # xs) =
     (if p x then 0 else let i = findIndex p xs in if i = - 1 then - 1 else i + 1)"

text \<open>
  The \<open>reduce\<close> that finds the closest gate: \<open>closest\<close> is always an index of \<open>gates\<close>,
  so \<open>gates[closest]\<close> is read with \<open>!\<close>.
\<close>

definition closestGateIndex :: "(int \<times> int) list \<Rightarrow> int \<Rightarrow> nat" where
  "closestGateIndex gates gateCol =
     fold (\<lambda>index closest.
             let currentDistance = \<bar>snd (gates ! index) - gateCol\<bar>;
                 closestDistance = \<bar>snd (gates ! closest) - gateCol\<bar>
             in if currentDistance < closestDistance then index else closest)
          [0 ..< length gates] 0"

definition pickBlockBasedOnGate ::
  "env \<Rightarrow> int \<Rightarrow> int \<Rightarrow> (int \<times> int) list \<Rightarrow> nat \<Rightarrow> int option \<times> nat" where
  "pickBlockBasedOnGate e gateCol numBlocks gates k =
     (if gates = [] \<or> numBlocks \<le> 0 then (Some 0, k)
      else
        let gateIndex = findIndex (\<lambda>gate. snd gate = gateCol) gates in
        if gateIndex = - 1 then
          let blockSpan = max 1 (numBlocks div int (length gates));
              baseBlock = min (int (closestGateIndex gates gateCol) * blockSpan) (numBlocks - 1);
              choices = [(baseBlock, 0.6)]
                 @ (if baseBlock > 0 then [(baseBlock - 1, 0.2)] else [])
                 @ (if baseBlock < numBlocks - 1 then [(baseBlock + 1, 0.2)] else [])
          in weightedChoice e (map fst choices) (map snd choices) k
        else
          let blockSpan = real_of_int numBlocks / real (length gates);
              baseBlock = \<lfloor>real_of_int gateIndex * blockSpan\<rfloor>;
              primary = (if baseBlock < numBlocks then [(baseBlock, 0.6)] else []);
              adjacent = primary @ (if baseBlock + 1 < numBlocks then [(baseBlock + 1, 0.3)] else []);
              choices = adjacent
                 @ (if baseBlock > 0 \<and> length adjacent < 2 then [(baseBlock - 1, 0.1)] else [])
          in weightedChoice e (map fst choices) (map snd choices) k)"

text \<open>
  \<open>pickPreferredCorridorCell\<close>.  \<open>Math.min()\<close> of no arguments is \<open>Infinity\<close>, which
  makes the weight of an empty segment 0.  \<open>reduce\<close> without an initial value throws on
  an empty array (and on \<open>undefined\<close>); the \<open>catch\<close> then returns \<open>segments[0][0]\<close>,
  which is \<open>undefined\<close> when that segment is empty.
\<close>

definition segWeight :: "int \<Rightarrow> int list \<Rightarrow> real" where
  "segWeight seatCol seg =
     (if seg = [] then 0
      else 1 / (real_of_int (Min (set (map (\<lambda>c. \<bar>seatCol - c\<bar>) seg))) + 1))"

definition closestCol :: "int \<Rightarrow> int list \<Rightarrow> int option" where
  "closestCol seatCol seg =
     (case seg of
        [] \<Rightarrow> None
      | c0 # cs \<Rightarrow> Some (foldl (\<lambda>best c. if \<bar>seatCol - c\<bar> < \<bar>seatCol - best\<bar> then c else best) c0 cs))"

definition pickPreferredCorridorCell ::
  "env \<Rightarrow> int option \<Rightarrow> int \<Rightarrow> int list list list \<Rightarrow> nat \<Rightarrow> int option \<times> nat" where
  "pickPreferredCorridorCell e block seatCol blockToCorridorCells k =
     (case (case block of None \<Rightarrow> None | Some b \<Rightarrow> nth_opt blockToCorridorCells b) of
        None \<Rightarrow> (Some 4, k)
      | Some segments \<Rightarrow>
          let segWeights = map (segWeight seatCol) segments;
              (chosenSeg, k1) = weightedChoice e segments segWeights k
          in (case (case chosenSeg of None \<Rightarrow> None | Some seg \<Rightarrow> closestCol seatCol seg) of
                Some c \<Rightarrow> (Some c, k1)
              | None \<Rightarrow>
                  (case nth_opt segments 0 of
                     Some seg0 \<Rightarrow> (nth_opt seg0 0, k1)
                   | None \<Rightarrow> (Some 4, k1))))"

subsection \<open>SeatSelectionEngine\<close>

text \<open>
  The cells \<open>grid[r][c0..c1]\<close> with their columns; \<open>None\<close> when reading them throws
  (a missing row and a non-empty column range).
\<close>

definition rowCells :: "grid \<Rightarrow> int \<Rightarrow> int \<Rightarrow> int \<Rightarrow> (int \<times> cell option) list option" where
  "rowCells g r c0 c1 = those (map (\<lambda>c. map_option (Pair c) (cellAt g r c)) [c0 .. c1])"

definition rowOccupancy :: "grid \<Rightarrow> int \<Rightarrow> int \<Rightarrow> int \<Rightarrow> int option" where
  "rowOccupancy g row c0 c1 =
     map_option
       (\<lambda>cs. int (length (filter (\<lambda>(c, v). v = Some SEATED_AGENT \<or> v = Some STANDING) cs)))
       (rowCells g row c0 c1)"

text \<open>
  \<open>countAdjacentSeated\<close> reads \<open>grid[0].length\<close>; it is only called on a row that has
  been read before, so row 0 exists, and \<open>isValidPosition\<close> guards every cell read.
\<close>

definition countAdjacentSeated :: "grid \<Rightarrow> int \<times> int \<Rightarrow> int" where
  "countAdjacentSeated g seat =
     (case seat of (r, c) \<Rightarrow>
        int (length (filter
          (\<lambda>(dr, dc). isValidPosition (r + dr) (c + dc) (nrows g) (ncols0 g)
                      \<and> cells g (r + dr, c + dc) = Some SEATED_AGENT)
          [(- 1, 0), (1, 0), (0, - 1), (0, 1), (- 1, - 1), (- 1, 1), (1, - 1), (1, 1)])))"

text \<open>
  The columns of row \<open>r\<close> in \<open>c0..c1\<close> that hold a \<open>SEAT\<close> whose key is not in the
  assigned set.  The set holds the strings \<open>"r,c"\<close>, which determine the pair \<open>(r, c)\<close>;
  it is modelled as a set of pairs.
\<close>

definition freeSeatCols :: "grid \<Rightarrow> (int \<times> int) set \<Rightarrow> int \<Rightarrow> int \<Rightarrow> int \<Rightarrow> int list option" where
  "freeSeatCols g assigned r c0 c1 =
     map_option (\<lambda>cs. map fst (filter (\<lambda>(c, v). v = Some SEAT \<and> (r, c) \<notin> assigned) cs))
       (rowCells g r c0 c1)"

definition rowAvailable ::
  "grid \<Rightarrow> (int \<times> int) set \<Rightarrow> int \<Rightarrow> int \<Rightarrow> int \<Rightarrow> int \<Rightarrow> bool option" where
  "rowAvailable g assigned c0 c1 rowThr r =
     do {
       occ \<leftarrow> rowOccupancy g r c0 c1;
       if occ \<ge> rowThr then Some False
       else do { free \<leftarrow> freeSeatCols g assigned r c0 c1; Some (free \<noteq> []) }
     }"

definition availableRows ::
  "grid \<Rightarrow> (int \<times> int) set \<Rightarrow> int \<Rightarrow> int \<Rightarrow> int \<Rightarrow> int list option" where
  "availableRows g assigned c0 c1 rowThr =
     map_option (\<lambda>flags. map fst (filter snd flags))
       (those (map (\<lambda>r. map_option (Pair r) (rowAvailable g assigned c0 c1 rowThr r))
                   [SEAT_ROWS_START .. SEAT_ROWS_END - 1]))"

text \<open>
  The block of \<open>pickSeatInBlock\<close> under \<open>config.BACK_PREF > 0\<close>, in its two parts.
  First the hard exclusion of front rows: the candidate rows, and whether rows were
  banned (which costs one draw that only decides whether to log).
\<close>

definition banFront :: "real \<Rightarrow> int list \<Rightarrow> int list \<times> bool" where
  "banFront backPref avail =
     (let banFrontRows = (if backPref \<ge> 4 then 2 else if backPref \<ge> 2 then 1 else (0::int));
          filtered = filter (\<lambda>r. r - SEAT_ROWS_START \<ge> banFrontRows) avail
      in if banFrontRows > 0 \<and> filtered \<noteq> [] then (filtered, True) else (avail, False))"

text \<open>
  Then the probabilistic aversion: with probability \<open>pAvoidFront\<close> the frontmost
  candidate row is dropped, with probability \<open>pAvoidSecond\<close> the second one, each only
  if rows remain; the second draw is made only when more than one row is left and a
  second row exists; a last draw decides whether to log a change.
\<close>

definition probAversion :: "env \<Rightarrow> real \<Rightarrow> int list \<Rightarrow> nat \<Rightarrow> int list \<times> nat" where
  "probAversion e backPref candidateRows k =
     (let sorted = sort candidateRows;
          frontMost = nth_opt sorted 0;
          secondFront = nth_opt sorted 1;
          pAvoidFront = min (0.15 + 0.15 * backPref) 0.85;
          pAvoidSecond = (if backPref \<ge> 4 then 0.35 else if backPref \<ge> 3 then 0.2 else 0);
          tmp = filter (\<lambda>r. Some r \<noteq> frontMost) candidateRows;
          probFiltered1 = (if rng e k < pAvoidFront \<and> tmp \<noteq> [] then tmp else candidateRows);
          second = (length probFiltered1 > 1 \<and> secondFront \<noteq> None);
          tmp2 = filter (\<lambda>r. Some r \<noteq> secondFront) probFiltered1;
          probFiltered = (if second \<and> rng e (k + 1) < pAvoidSecond \<and> tmp2 \<noteq> []
                          then tmp2 else probFiltered1);
          k2 = (if second then k + 2 else k + 1)
      in if probFiltered \<noteq> [] \<and> length probFiltered \<noteq> length candidateRows
         then (probFiltered, k2 + 1) else (candidateRows, k2))"

definition frontAversion :: "env \<Rightarrow> real \<Rightarrow> int list \<Rightarrow> nat \<Rightarrow> int list \<times> nat" where
  "frontAversion e backPref avail k =
     (let (candidateRows, banned) = banFront backPref avail;
          k1 = (if banned then k + 1 else k)
      in if candidateRows = [] then (candidateRows, k1)
         else probAversion e backPref candidateRows k1)"

text \<open>
  The choice of the row.  Candidate rows are seat rows, so the exponent of
  \<open>Math.pow(2.0, rowFromFront)\<close> is a natural number.
\<close>

definition chooseRow :: "env \<Rightarrow> real \<Rightarrow> int list \<Rightarrow> nat \<Rightarrow> int option \<times> nat" where
  "chooseRow e backPref candidateRows k =
     (if backPref > 0 then
        let rowWeights = map (\<lambda>r. 1 + backPref * 2 ^ nat (r - SEAT_ROWS_START)) candidateRows;
            (chosenRow, k1) = weightedChoice e candidateRows rowWeights k
        in (chosenRow, if backPref > 3 then k1 + 1 else k1)
      else (nth_opt candidateRows \<lfloor>rng e k * real (length candidateRows)\<rfloor>, k + 1))"

definition seatWeight :: "grid \<Rightarrow> sim_config \<Rightarrow> int \<Rightarrow> int \<Rightarrow> int \<Rightarrow> int \<Rightarrow> real" where
  "seatWeight g config chosenRow c c0 c1 =
     (let distFromEdge = min (c - c0) (c1 - c);
          aisle = (if distFromEdge \<le> 1 \<and> AISLE_PREF config > 0 then AISLE_PREF config * 3 else 0);
          adjacentCount = countAdjacentSeated g (chosenRow, c);
          socialBonus = (8 - adjacentCount) * SOCIAL_DISTANCE config
      in max (real_of_int (1 + aisle + socialBonus)) 0.01)"

text \<open>
  Step 1 of \<open>pickSeatInBlock\<close>: from the available rows to the chosen row.
\<close>

definition pickRow :: "env \<Rightarrow> sim_config \<Rightarrow> int list \<Rightarrow> nat \<Rightarrow> int option \<times> nat" where
  "pickRow e config avail k =
     (let (candidateRows, k1) =
            (if BACK_PREF config > 0 then frontAversion e (BACK_PREF config) avail k
             else (avail, k))
      in chooseRow e (BACK_PREF config) candidateRows k1)"

text \<open>
  Steps 2 and 3: the valid seats of the chosen row with their weights (one logging
  draw for each), and the weighted choice among them.  An undefined \<open>chosenRow\<close>
  makes the first cell read throw.
\<close>

definition pickSeatInRow ::
  "env \<Rightarrow> grid \<Rightarrow> (int \<times> int) set \<Rightarrow> sim_config \<Rightarrow> int \<Rightarrow> int \<Rightarrow> int option \<Rightarrow> nat
     \<Rightarrow> (int \<times> int) option \<times> nat" where
  "pickSeatInRow e g assigned config c0 c1 chosenRow k =
     (case (case chosenRow of None \<Rightarrow> None
            | Some row \<Rightarrow> map_option (Pair row) (freeSeatCols g assigned row c0 c1)) of
        None \<Rightarrow> (None, k)
      | Some (row, cols) \<Rightarrow>
          let seats = map (Pair row) cols;
              weights = map (\<lambda>c. seatWeight g config row c c0 c1) cols;
              k1 = k + length cols
          in if seats = [] then (None, k1)
             else
               let (chosenSeat, k2) = weightedChoice e seats weights k1
               in (chosenSeat, if BACK_PREF config > 3 then k2 + 1 else k2))"

text \<open>
  \<open>pickSeatInBlock\<close>; \<open>None\<close> is \<open>null\<close>, returned on every exception as well:
  \<open>seatBlocks[block]\<close> undefined, a missing grid row, an undefined \<open>chosenRow\<close>.
\<close>

definition pickSeatInBlock ::
  "env \<Rightarrow> grid \<Rightarrow> int option \<Rightarrow> (int \<times> int) set \<Rightarrow> (int \<times> int) list \<Rightarrow> sim_config \<Rightarrow> int \<Rightarrow> nat
     \<Rightarrow> (int \<times> int) option \<times> nat" where
  "pickSeatInBlock e g block assigned seatBlocks config rowThr k =
     (case (case block of None \<Rightarrow> None | Some b \<Rightarrow> nth_opt seatBlocks b) of
        None \<Rightarrow> (None, k)
      | Some (c0, c1) \<Rightarrow>
         (case availableRows g assigned c0 c1 rowThr of
            None \<Rightarrow> (None, k)
          | Some avail \<Rightarrow>
              if avail = [] then (None, k)
              else
                let (chosenRow, k1) = pickRow e config avail k
                in pickSeatInRow e g assigned config c0 c1 chosenRow k1))"

fun pickSeatAnyBlock_loop ::
  "env \<Rightarrow> grid \<Rightarrow> (int \<times> int) set \<Rightarrow> (int \<times> int) list \<Rightarrow> sim_config \<Rightarrow> int \<Rightarrow> int list \<Rightarrow> nat
     \<Rightarrow> (int \<times> (int \<times> int)) option \<times> nat" where
  "pickSeatAnyBlock_loop e g assigned seatBlocks config rowThr [] k = (None, k)"
| "pickSeatAnyBlock_loop e g assigned seatBlocks config rowThr (b # bs) k =
     (case pickSeatInBlock e g (Some b) assigned seatBlocks config rowThr k of
        (Some s, k') \<Rightarrow> (Some (b, s), k')
      | (None, k') \<Rightarrow> pickSeatAnyBlock_loop e g assigned seatBlocks config rowThr bs k')"

definition pickSeatAnyBlock ::
  "env \<Rightarrow> grid \<Rightarrow> (int \<times> int) set \<Rightarrow> (int \<times> int) list \<Rightarrow> sim_config \<Rightarrow> int \<Rightarrow> nat
     \<Rightarrow> (int \<times> (int \<times> int)) option \<times> nat" where
  "pickSeatAnyBlock e g assigned seatBlocks config rowThr k =
     (let blocks = [0 .. int (length seatBlocks) - 1];
          (shuffled, k1) = shuffle e k blocks
      in pickSeatAnyBlock_loop e g assigned seatBlocks config rowThr shuffled k1)"

text \<open>
  The candidates of one back row; \<open>None\<close> when the scan throws (\<open>grid[0]\<close> or the row
  is missing).  A cell that is \<open>undefined\<close> differs from all four excluded types.
\<close>

definition standingCandidates :: "grid \<Rightarrow> int \<Rightarrow> path option" where
  "standingCandidates g r =
     (if nrows g \<le> 0 then None
      else map_option
             (\<lambda>cs. map (\<lambda>(c, v). (r, c))
                     (filter (\<lambda>(c, v). v \<noteq> Some SEAT \<and> v \<noteq> Some GATE
                                       \<and> v \<noteq> Some SEATED_AGENT \<and> v \<noteq> Some STANDING) cs))
             (rowCells g r 0 (ncols0 g - 1)))"

text \<open>
  The scan over the back rows: \<open>None\<close> when it throws, \<open>Some None\<close> when no row has a
  candidate, otherwise the candidates of the first row that has any.
\<close>

fun standingScan :: "grid \<Rightarrow> int list \<Rightarrow> path option option" where
  "standingScan g [] = Some None"
| "standingScan g (r # rs) =
     (case standingCandidates g r of
        None \<Rightarrow> None
      | Some candidates \<Rightarrow>
          if candidates \<noteq> [] then Some (Some candidates) else standingScan g rs)"

definition findStandingPosition :: "env \<Rightarrow> grid \<Rightarrow> nat \<Rightarrow> (int \<times> int) option \<times> nat" where
  "findStandingPosition e g k =
     (case standingScan g [19, 18, 17, 16, 15, 14] of
        None \<Rightarrow> (Some (18, 10), k)
      | Some (Some candidates) \<Rightarrow>
          (nth_opt candidates \<lfloor>rng e k * real (length candidates)\<rfloor>, k + 1)
      | Some None \<Rightarrow>
          let r = BACK_ROWS_START + \<lfloor>rng e k * 6\<rfloor>;
              c = \<lfloor>rng e (k + 1) * real_of_int (ncols0 g)\<rfloor>
          in (Some (r, c), k + 2))"

subsection \<open>Agent\<close>

text \<open>
  \<open>block\<close>, \<open>seat\<close> and \<open>corridor\<close> are options because the functions that produce
  them can return \<open>undefined\<close>.
\<close>

record agent =
  pos :: "int \<times> int"
  seated :: bool
  standing :: bool
  willStand :: bool
  block :: "int option"
  seat :: "(int \<times> int) option"
  corridor :: "int option"
  row0 :: int
  path :: path

text \<open>
  The second half of the constructor, for an agent that got a seat: the reservation,
  the corridor, the turn row and the path.  With an undefined corridor the second loop
  of \<open>computeSimplePath\<close> compares its counter with \<open>NaN\<close> and never ends.
\<close>

definition Agent_seatBound ::
  "env \<Rightarrow> int \<times> int \<Rightarrow> (int \<times> int) set \<Rightarrow> int list list list \<Rightarrow> sim_config
     \<Rightarrow> int option \<Rightarrow> int \<times> int \<Rightarrow> nat \<Rightarrow> (agent \<times> (int \<times> int) set \<times> nat) option" where
  "Agent_seatBound e spawn assigned blockToCorridorCells config blk st k =
     (let assigned' = (if FEATURE_ASSIGNED_SEATS config then insert st assigned else assigned);
          (corr, k1) = pickPreferredCorridorCell e blk (snd st) blockToCorridorCells k;
          r0 = PATH_ROW_RANGE_START + \<lfloor>rng e k1 * 4\<rfloor>
      in case corr of
           None \<Rightarrow> None
         | Some cc \<Rightarrow>
             map_option
               (\<lambda>p. (\<lparr>pos = spawn, seated = False, standing = False, willStand = False,
                       block = blk, seat = Some st, corridor = corr, row0 = r0, path = p\<rparr>,
                      assigned', k1 + 1))
               (computeSimplePath spawn cc st r0))"

text \<open>
  The branch for an agent without a seat.  An undefined standing position makes the
  destructuring in \<open>computeSimplePath\<close> throw, which the constructor's \<open>catch\<close> turns
  into an agent standing at its spawn cell with an empty path.
\<close>

definition Agent_willStand ::
  "env \<Rightarrow> grid \<Rightarrow> int \<times> int \<Rightarrow> (int \<times> int) set \<Rightarrow> sim_config \<Rightarrow> int option \<Rightarrow> nat
     \<Rightarrow> (agent \<times> (int \<times> int) set \<times> nat) option" where
  "Agent_willStand e g spawn assigned config blk k =
     (let (standPos, k1) = findStandingPosition e g k in
      case standPos of
        None \<Rightarrow>
          Some (\<lparr>pos = spawn, seated = False, standing = True, willStand = False,
                 block = blk, seat = None, corridor = Some (CORRIDOR_WIDTH config), row0 = 19,
                 path = []\<rparr>, assigned, k1)
      | Some sp \<Rightarrow>
          map_option
            (\<lambda>p. (\<lparr>pos = spawn, seated = False, standing = False, willStand = True,
                    block = blk, seat = Some sp, corridor = Some (CORRIDOR_WIDTH config), row0 = 19,
                    path = p\<rparr>, assigned, k1))
            (computeSimplePath spawn (CORRIDOR_WIDTH config) sp 19))"

text \<open>
  The constructor; it returns the agent, the assigned set (which it mutates) and the
  next draw index, or \<open>None\<close> when it never returns.
\<close>

definition Agent_new ::
  "env \<Rightarrow> grid \<Rightarrow> int \<times> int \<Rightarrow> (int \<times> int) set \<Rightarrow> (int \<times> int) list \<Rightarrow> int list list list
     \<Rightarrow> sim_config \<Rightarrow> (int \<times> int) list \<Rightarrow> nat \<Rightarrow> (agent \<times> (int \<times> int) set \<times> nat) option" where
  "Agent_new e g spawn assigned seatBlocks blockToCorridorCells config gates k =
     (let gateC = snd spawn;
          numBlocks = int (length seatBlocks);
          (b0, k1) = pickBlockBasedOnGate e gateC numBlocks gates k;
          blk = (case b0 of None \<Rightarrow> None
                 | Some b \<Rightarrow> if b \<ge> numBlocks then Some (numBlocks - 1) else Some b);
          (seat0, k2) = pickSeatInBlock e g blk assigned seatBlocks config DEFAULT_ROW_THRESHOLD k1
      in case seat0 of
           Some st \<Rightarrow> Agent_seatBound e spawn assigned blockToCorridorCells config blk st k2
         | None \<Rightarrow>
             (case pickSeatAnyBlock e g assigned seatBlocks config DEFAULT_ROW_THRESHOLD k2 of
                (Some (b, s), k3) \<Rightarrow>
                  Agent_seatBound e spawn assigned blockToCorridorCells config (Some b) s k3
              | (None, k3) \<Rightarrow> Agent_willStand e g spawn assigned config blk k3))"

text \<open>
  \<open>update(grid)\<close> of an agent, returning the agent and the grid.  The flag is set
  before the grid is written; a write that throws ends in the \<open>catch\<close>, which sets
  \<open>standing\<close>.
\<close>

definition Agent_update :: "agent \<Rightarrow> grid \<Rightarrow> agent \<times> grid" where
  "Agent_update a g =
     (if seated a \<or> standing a then (a, g)
      else if path a = [] then
        (if willStand a then
           (a\<lparr>standing := True\<rparr>,
            case grid_set g (fst (pos a)) (snd (pos a)) STANDING of None \<Rightarrow> g | Some g' \<Rightarrow> g')
         else
           (case cellAt g (fst (pos a)) (snd (pos a)) of
              None \<Rightarrow> (a\<lparr>standing := True\<rparr>, g)
            | Some v \<Rightarrow>
                if v = Some SEAT then
                  (a\<lparr>seated := True\<rparr>,
                   case grid_set g (fst (pos a)) (snd (pos a)) SEATED_AGENT of
                     None \<Rightarrow> g | Some g' \<Rightarrow> g')
                else
                  (a\<lparr>standing := True\<rparr>,
                   case grid_set g (fst (pos a)) (snd (pos a)) STANDING of
                     None \<Rightarrow> g | Some g' \<Rightarrow> g')))
      else (a\<lparr>pos := hd (path a), path := tl (path a)\<rparr>, g))"

subsection \<open>SimulationEngine\<close>

record chartData =
  chart_time :: "int list"
  chart_seated :: "int list"
  chart_standing :: "int list"

text \<open>\<open>draws\<close> is the number of \<open>Math.random()\<close> calls made so far.\<close>

record engine =
  config :: sim_config
  grid :: grid
  agents :: "agent list"
  spawned :: int
  time :: int
  completed :: bool
  assigned :: "(int \<times> int) set"
  gates :: "(int \<times> int) list"
  seatBlocks :: "(int \<times> int) list"
  corridorSegs :: "int list list"
  blockToCorridorCells :: "int list list list"
  chart :: chartData
  draws :: nat

definition SimulationEngine :: "sim_config \<Rightarrow> nat \<Rightarrow> engine" where
  "SimulationEngine cfg k =
     \<lparr>config = cfg, grid = null_grid, agents = [], spawned = 0, time = 0, completed = False,
      assigned = {}, gates = [], seatBlocks = [], corridorSegs = [], blockToCorridorCells = [],
      chart = \<lparr>chart_time = [], chart_seated = [], chart_standing = []\<rparr>, draws = k\<rparr>"

text \<open>The corridors available to block \<open>i\<close> (an array, even an empty one, is truthy).\<close>

definition availableCorridors :: "int list list \<Rightarrow> int \<Rightarrow> int \<Rightarrow> int list list" where
  "availableCorridors segs numBlocks i =
     (let left = (case nth_opt segs i of Some seg \<Rightarrow> [seg] | None \<Rightarrow> []);
          right = (case nth_opt segs (i + 1) of Some seg \<Rightarrow> [seg] | None \<Rightarrow> []);
          both = left @ right
      in if length both = 1 \<and> i = numBlocks - 1
         then (case nth_opt segs (i - 1) of Some seg \<Rightarrow> seg # both | None \<Rightarrow> both)
         else both)"

text \<open>
  \<open>initialize\<close>: a failed grid build leaves \<open>null\<close> in \<open>grid\<close> and every other field
  as it was.
\<close>

definition initialize :: "engine \<Rightarrow> engine \<times> bool" where
  "initialize s =
     (case buildGrid (config s) of
        None \<Rightarrow> (s\<lparr>grid := null_grid\<rparr>, False)
      | Some g \<Rightarrow>
          let cfg = config s;
              gatePositions = filter (\<lambda>c. c < COLS cfg) GATE_POSITIONS;
              blocks = generateSeatBlocks (COLS cfg) (NUM_BLOCKS cfg) (CORRIDOR_WIDTH cfg);
              segs = generateCorridorSegments (COLS cfg) blocks (CORRIDOR_WIDTH cfg)
          in (s\<lparr>grid := g, agents := [], spawned := 0, time := 0, completed := False,
                assigned := {},
                gates := map (\<lambda>c. (ROWS cfg - 1, c)) gatePositions,
                seatBlocks := blocks,
                corridorSegs := segs,
                blockToCorridorCells :=
                  map (availableCorridors segs (NUM_BLOCKS cfg)) [0 .. NUM_BLOCKS cfg - 1],
                chart := \<lparr>chart_time = [], chart_seated = [], chart_standing = []\<rparr>\<rparr>,
              True))"

text \<open>
  The spawn loop of \<open>update\<close> over the gates.  The result is \<open>None\<close> when a constructor
  never returns; otherwise the engine and whether the reservation of a standing cell
  threw (which ends the loop).
\<close>

definition backPrefMultiplier :: "int \<Rightarrow> int \<Rightarrow> real" where
  "backPrefMultiplier spawnedCount numAgents =
     (let arrivalRatio = real_of_int spawnedCount / real_of_int numAgents
      in if arrivalRatio < 0.3 then 1.5 else if arrivalRatio < 0.7 then 1.0 else 0.5)"

fun spawnLoop :: "env \<Rightarrow> (int \<times> int) list \<Rightarrow> (int \<times> int) set \<Rightarrow> engine \<Rightarrow> (engine \<times> bool) option" where
  "spawnLoop e [] occupied s = Some (s, False)"
| "spawnLoop e (gate # rest) occupied s =
     (if spawned s < NUM_AGENTS (config s) \<and> gate \<notin> occupied then
        (let modifiedConfig = (config s)\<lparr>BACK_PREF :=
               max 0 (BACK_PREF (config s) * backPrefMultiplier (spawned s) (NUM_AGENTS (config s)))\<rparr>
         in case Agent_new e (grid s) gate (assigned s) (seatBlocks s) (blockToCorridorCells s)
                   modifiedConfig (gates s) (draws s) of
              None \<Rightarrow> None
            | Some (a, assigned', k') \<Rightarrow>
                (let s1 = s\<lparr>agents := agents s @ [a], spawned := spawned s + 1,
                            assigned := assigned', draws := k'\<rparr>
                 in case (if willStand a then seat a else None) of
                      None \<Rightarrow> spawnLoop e rest (insert gate occupied) s1
                    | Some (r, c) \<Rightarrow>
                        (case grid_set (grid s1) r c STANDING of
                           None \<Rightarrow> Some (s1, True)
                         | Some g' \<Rightarrow> spawnLoop e rest (insert gate occupied) (s1\<lparr>grid := g'\<rparr>))))
      else spawnLoop e rest occupied s)"

fun updateAgents :: "agent list \<Rightarrow> grid \<Rightarrow> agent list \<times> grid" where
  "updateAgents [] g = ([], g)"
| "updateAgents (a # as) g =
     (let (a', g') = (if \<not> seated a \<and> \<not> standing a then Agent_update a g else (a, g));
          (as', g'') = updateAgents as g'
      in (a' # as', g''))"

datatype tick_result =
    NoResult
  | Completed int int
  | Running int int int
  | Failed

definition count :: "('a \<Rightarrow> bool) \<Rightarrow> 'a list \<Rightarrow> int" where
  "count p xs = int (length (filter p xs))"

text \<open>
  \<open>update()\<close>.  \<open>None\<close>: the call never returns.  The periodic debug log is omitted.
\<close>

definition update :: "env \<Rightarrow> engine \<Rightarrow> (engine \<times> tick_result) option" where
  "update e s =
     (if completed s then Some (s, NoResult)
      else
        let occupied = set (map pos (filter (\<lambda>a. \<not> seated a \<and> \<not> standing a) (agents s))) in
        case spawnLoop e (gates s) occupied s of
          None \<Rightarrow> None
        | Some (s1, True) \<Rightarrow> Some (s1\<lparr>completed := True\<rparr>, Failed)
        | Some (s1, False) \<Rightarrow>
            let (as', g') = updateAgents (agents s1) (grid s1);
                nseated = count seated as';
                nstanding = count standing as';
                s2 = s1\<lparr>agents := as', grid := g', time := time s1 + 1,
                        chart := \<lparr>chart_time = chart_time (chart s1) @ [time s1 + 1],
                                  chart_seated = chart_seated (chart s1) @ [nseated],
                                  chart_standing = chart_standing (chart s1) @ [nstanding]\<rparr>\<rparr>;
                allSettled = (\<forall>a \<in> set as'. seated a \<or> standing a)
            in if (allSettled \<and> spawned s2 \<ge> NUM_AGENTS (config s2)) \<or> time s2 \<ge> MAX_TIME (config s2)
               then Some (s2\<lparr>completed := True\<rparr>, Completed nseated nstanding)
               else Some (s2, Running nseated nstanding
                                (count (\<lambda>a. \<not> seated a \<and> \<not> standing a) as')))"

text \<open>
  \<open>getStats()\<close>: the counts (the percentage and the speeds are formatted strings,
  derived from the same counts, and are left out).
\<close>

record stats =
  stats_time :: int
  stats_spawned :: int
  stats_seated :: int
  stats_standing :: int
  stats_moving :: int

definition getStats :: "engine \<Rightarrow> stats" where
  "getStats s =
     \<lparr>stats_time = time s, stats_spawned = spawned s,
      stats_seated = count seated (agents s),
      stats_standing = count standing (agents s),
      stats_moving = count (\<lambda>a. \<not> seated a \<and> \<not> standing a) (agents s)\<rparr>"

text \<open>
  The states an engine can be in: it is constructed on a configuration, and then
  \<open>initialize\<close> and \<open>update\<close> are called in any order.  The engine shares its
  configuration object with the configuration manager, so the configuration can change
  between calls; \<open>P\<close> restricts the configurations of the run.
\<close>

inductive reachable :: "env \<Rightarrow> (sim_config \<Rightarrow> bool) \<Rightarrow> engine \<Rightarrow> bool"
  for e :: env and P :: "sim_config \<Rightarrow> bool" where
  constructed: "P cfg \<Longrightarrow> reachable e P (SimulationEngine cfg k)"
| initialized: "reachable e P s \<Longrightarrow> reachable e P (fst (initialize s))"
| updated: "reachable e P s \<Longrightarrow> update e s = Some (s', r) \<Longrightarrow> reachable e P s'"
| reconfigured: "reachable e P s \<Longrightarrow> P cfg \<Longrightarrow> reachable e P (s\<lparr>config := cfg\<rparr>)"

subsection \<open>Specification-side notions and test data\<close>

text \<open>
  The per-block seat count and the remaining seat columns of a corridor width, as the
  specification of the width search names them.
\<close>

definition seatsPerBlock :: "int \<Rightarrow> int \<Rightarrow> int \<Rightarrow> int" where
  "seatsPerBlock totalCols numBlocks corridorWidth =
     (totalCols - (numBlocks + 1) * corridorWidth) div numBlocks"

definition remainingForSeats :: "int \<Rightarrow> int \<Rightarrow> int \<Rightarrow> int" where
  "remainingForSeats totalCols numBlocks corridorWidth =
     totalCols - (numBlocks + 1) * corridorWidth"

text \<open>
  A leg of a path as the specification describes it: the coordinates after \<open>a\<close> up to
  and including \<open>b\<close>, in the order of travel, in either direction; and the upward leg,
  from the row above \<open>a\<close> to row \<open>b\<close> with decreasing row numbers (empty unless
  \<open>b < a\<close>).
\<close>

definition leg :: "int \<Rightarrow> int \<Rightarrow> int list" where
  "leg a b = (if a \<le> b then [a + 1 .. b] else rev [b .. a - 1])"

definition leg_up :: "int \<Rightarrow> int \<Rightarrow> int list" where
  "leg_up a b = rev [b .. a - 1]"

text \<open>
  The standing candidates of a back row as the specification describes them: the cells
  of the row, by increasing column, that are not Seat, Gate, SeatedAgent or Standing.
\<close>

definition standingRow :: "grid \<Rightarrow> int \<Rightarrow> path" where
  "standingRow g r =
     map (Pair r)
       (filter (\<lambda>c. cells g (r, c) \<notin> {Some SEAT, Some GATE, Some SEATED_AGENT, Some STANDING})
          [0 .. ncols0 g - 1])"

text \<open>
  A random source that returns \<open>u\<close> at every draw (and a sort that leaves the array as
  it is), and a grid of 20 rows and 11 columns whose back rows are full: every cell of
  rows 14 to 19 is Standing, except the gate at column 10 of the bottom row.
\<close>

definition const_env :: "real \<Rightarrow> env" where
  "const_env u = \<lparr>rng = (\<lambda>k. u), shuffle = (\<lambda>k xs. (xs, k))\<rparr>"


text \<open>
  The seats handed to agents: the targets of the agents that got a seat (an agent
  that will stand has a standing position as its target instead).
\<close>

definition seatTargets :: "agent list \<Rightarrow> (int \<times> int) list" where
  "seatTargets as = List.map_filter (\<lambda>a. if willStand a then None else seat a) as"

text \<open>
  The driving loop calls \<open>update\<close> tick after tick; \<open>run_ticks e n\<close> is \<open>n\<close> such calls
  (\<open>None\<close> when one of them does not return).
\<close>

fun run_ticks :: "env \<Rightarrow> nat \<Rightarrow> engine \<Rightarrow> engine option" where
  "run_ticks e 0 s = Some s"
| "run_ticks e (Suc n) s =
     (case update e s of None \<Rightarrow> None | Some (s', r) \<Rightarrow> run_ticks e n s')"

text \<open>
  A small hall for test runs: 11 columns (one gate, two blocks of two seats per row)
  and 50 agents, with the seat reservation switched off or on.
\<close>

definition small_config :: "bool \<Rightarrow> sim_config" where
  "small_config assignedSeats =
     \<lparr>ROWS = 20, COLS = 11, NUM_BLOCKS = 2, CORRIDOR_WIDTH = 2,
      FEATURE_ASSIGNED_SEATS = assignedSeats, NUM_AGENTS = 50, MAX_TIME = 200,
      SOCIAL_DISTANCE = 3, BACK_PREF = 3, AISLE_PREF = 2\<rparr>"

text \<open>
  The state of a fresh engine on \<open>cfg\<close> after \<open>initialize\<close> and \<open>n\<close> ticks (the fresh
  engine itself, should a tick not return).
\<close>

definition state_after :: "env \<Rightarrow> nat \<Rightarrow> sim_config \<Rightarrow> engine" where
  "state_after e n cfg =
     (case run_ticks e n (fst (initialize (SimulationEngine cfg 0))) of
        Some s \<Rightarrow> s
      | None \<Rightarrow> SimulationEngine cfg 0)"

subsection \<open>Invariants\<close>

text \<open>The agent list and the spawn counter agree, and no agent has both flags.\<close>

definition tally :: "engine \<Rightarrow> bool" where
  "tally s \<longleftrightarrow> int (length (agents s)) = spawned s
               \<and> (\<forall>a \<in> set (agents s). \<not> (seated a \<and> standing a))"

text \<open>The seats handed out are pairwise different and all in the assigned set.\<close>

definition booked :: "engine \<Rightarrow> bool" where
  "booked s \<longleftrightarrow> distinct (seatTargets (agents s)) \<and> set (seatTargets (agents s)) \<subseteq> assigned s"

subsection \<open>Runs with reserved seats and room to stand\<close>

text \<open>
  The cells that \<open>findStandingPosition\<close> may still hand out: the candidates of the back
  rows, in scan order.
\<close>

definition freeStanding :: "grid \<Rightarrow> path" where
  "freeStanding g = concat (map (standingRow g) [19, 18, 17, 16, 15, 14])"

text \<open>
  An agent is on target when it has a target cell (a seat row for an agent that sits,
  a back row for one that stands), and it is on that cell once it is seated or
  standing, or its remaining path ends there.
\<close>

definition on_target :: "agent \<Rightarrow> bool" where
  "on_target a \<longleftrightarrow>
     (\<exists>t. seat a = Some t
        \<and> (if willStand a then BACK_ROWS_START \<le> fst t else fst t < SEAT_ROWS_END)
        \<and> (if seated a \<or> standing a then pos a = t else last (pos a # path a) = t))"

text \<open>
  Every agent is on target, no two agents share a target, the seats are in the
  assigned set and the standing places are marked on the grid.
\<close>

definition placed :: "engine \<Rightarrow> bool" where
  "placed s \<longleftrightarrow>
     (\<forall>a \<in> set (agents s). on_target a)
     \<and> distinct (map seat (agents s))
     \<and> set (seatTargets (agents s)) \<subseteq> assigned s
     \<and> (20 \<le> nrows (grid s) \<longrightarrow>
          (\<forall>a \<in> set (agents s). willStand a \<longrightarrow> (\<forall>t. seat a = Some t \<longrightarrow> cells (grid s) t = Some STANDING)))"

definition roomy :: "(int \<times> int) list \<Rightarrow> engine \<Rightarrow> bool" where
  "roomy rest s \<longleftrightarrow> FEATURE_ASSIGNED_SEATS (config s) \<and> placed s \<and> 20 \<le> nrows (grid s)
                  \<and> length rest \<le> length (freeStanding (grid s))"

text \<open>
  The states of a run with \<open>FEATURE_ASSIGNED_SEATS\<close> enabled in which every tick starts
  on a grid of at least 20 rows whose back rows offer at least one standing candidate
  per gate.
\<close>

inductive roomy_run :: "env \<Rightarrow> engine \<Rightarrow> bool" for e :: env where
  constructed: "FEATURE_ASSIGNED_SEATS cfg \<Longrightarrow> roomy_run e (SimulationEngine cfg k)"
| initialized: "roomy_run e s \<Longrightarrow> roomy_run e (fst (initialize s))"
| updated: "roomy_run e s \<Longrightarrow> 20 \<le> nrows (grid s)
      \<Longrightarrow> length (gates s) \<le> length (freeStanding (grid s))
      \<Longrightarrow> update e s = Some (s', r) \<Longrightarrow> roomy_run e s'"
| reconfigured: "roomy_run e s \<Longrightarrow> FEATURE_ASSIGNED_SEATS cfg \<Longrightarrow> roomy_run e (s\<lparr>config := cfg\<rparr>)"

text \<open>
  \<open>n\<close> ticks, each checked for room before it starts (\<open>None\<close> when a tick finds no
  room or does not return), and the state they lead to from a fresh engine.
\<close>

fun roomy_ticks :: "env \<Rightarrow> nat \<Rightarrow> engine \<Rightarrow> engine option" where
  "roomy_ticks e 0 s = Some s"
| "roomy_ticks e (Suc n) s =
     (if 20 \<le> nrows (grid s) \<and> length (gates s) \<le> length (freeStanding (grid s))
      then case update e s of None \<Rightarrow> None | Some (s', r) \<Rightarrow> roomy_ticks e n s'
      else None)"

definition roomy_after :: "env \<Rightarrow> nat \<Rightarrow> sim_config \<Rightarrow> engine" where
  "roomy_after e n cfg =
     (case roomy_ticks e n (fst (initialize (SimulationEngine cfg 0))) of
        Some s \<Rightarrow> s
      | None \<Rightarrow> SimulationEngine cfg 0)"

text \<open>What each agent reports: its position and its two terminal flags.\<close>

definition agentStates :: "engine \<Rightarrow> ((int \<times> int) \<times> bool \<times> bool) list" where
  "agentStates s = map (\<lambda>a. (pos a, seated a, standing a)) (agents s)"

section \<open>Verification\<close>

subsection \<open>Seat blocks\<close>

lemma length_generateSeatBlocks: "length (generateSeatBlocks cols n cw) = nat n"
  by (simp add: generateSeatBlocks_def Let_def)

lemma nth_generateSeatBlocks:
  "i < nat n \<Longrightarrow> generateSeatBlocks cols n cw ! i =
     (cw + int i * (blockWidth_of cols n cw + cw),
      cw + int i * (blockWidth_of cols n cw + cw) + blockWidth_of cols n cw - 1)"
  by (simp add: generateSeatBlocks_def Let_def blockWidth_of_def)

lemma blocks_fit:
  assumes n: "0 < n" and cw: "0 \<le> cw"
  shows "n * (blockWidth_of cols n cw + cw) + cw \<le> cols"
proof -
  let ?a = "cols - (n + 1) * cw"
  have "n * (?a div n) = ?a - ?a mod n" by (simp add: minus_mod_eq_mult_div)
  moreover have "0 \<le> ?a mod n" using n by simp
  ultimately have "n * (?a div n) \<le> ?a" by simp
  then show ?thesis by (simp add: blockWidth_of_def algebra_simps)
qed

text \<open>
  C4: for a valid configuration (block count and corridor width in 2..6, block width
  at least 1) \<open>generateSeatBlocks\<close> returns exactly \<open>numBlocks\<close> column ranges; block \<open>i\<close>
  starts at \<open>corridorWidth + i * (blockWidth + corridorWidth)\<close>, has width exactly
  \<open>blockWidth\<close> and lies within \<open>[0, cols)\<close>; and every block ends strictly before each
  later block starts, so the ranges are disjoint and ordered from left to right.
\<close>

theorem generateSeatBlocks_layout:
  assumes n: "2 \<le> n" "n \<le> 6" and cw: "2 \<le> cw" "cw \<le> 6"
    and bw: "1 \<le> blockWidth_of cols n cw"
  shows "length (generateSeatBlocks cols n cw) = nat n \<and>
    (\<forall>i < nat n.
        fst (generateSeatBlocks cols n cw ! i) = cw + int i * (blockWidth_of cols n cw + cw) \<and>
        snd (generateSeatBlocks cols n cw ! i) - fst (generateSeatBlocks cols n cw ! i) + 1
            = blockWidth_of cols n cw \<and>
        0 \<le> fst (generateSeatBlocks cols n cw ! i) \<and>
        snd (generateSeatBlocks cols n cw ! i) < cols) \<and>
    (\<forall>i j. i < j \<and> j < nat n \<longrightarrow>
        snd (generateSeatBlocks cols n cw ! i) < fst (generateSeatBlocks cols n cw ! j))"
proof (intro conjI allI impI)
  let ?bw = "blockWidth_of cols n cw"
  have step: "0 < ?bw + cw" using bw cw by simp
  show "length (generateSeatBlocks cols n cw) = nat n"
    by (rule length_generateSeatBlocks)
  have fit: "n * (?bw + cw) + cw \<le> cols"
    using blocks_fit [of n cw cols] n cw by simp
  {
    fix i assume i: "i < nat n"
    have le: "(int i + 1) * (?bw + cw) \<le> n * (?bw + cw)"
      using i step by (intro mult_right_mono) auto
    show "fst (generateSeatBlocks cols n cw ! i) = cw + int i * (?bw + cw)"
      using i by (simp add: nth_generateSeatBlocks)
    show "snd (generateSeatBlocks cols n cw ! i) - fst (generateSeatBlocks cols n cw ! i) + 1 = ?bw"
      using i by (simp add: nth_generateSeatBlocks)
    have "0 \<le> int i * (?bw + cw)" using step by simp
    then show "0 \<le> fst (generateSeatBlocks cols n cw ! i)"
      using i cw by (simp add: nth_generateSeatBlocks)
    show "snd (generateSeatBlocks cols n cw ! i) < cols"
      using i le fit cw by (simp add: nth_generateSeatBlocks algebra_simps)
  }
  {
    fix i j assume ij: "i < j \<and> j < nat n"
    then have "(int i + 1) * (?bw + cw) \<le> int j * (?bw + cw)"
      using step by (intro mult_right_mono) auto
    then show "snd (generateSeatBlocks cols n cw ! i) < fst (generateSeatBlocks cols n cw ! j)"
      using ij cw by (simp add: nth_generateSeatBlocks algebra_simps)
  }
qed

theorem generateSeatBlocks_layout_witness:
  "generateSeatBlocks 68 4 2 = [(2, 15), (18, 31), (34, 47), (50, 63)] \<and>
   blockWidth_of 68 4 2 = 14 \<and>
   length (generateSeatBlocks 68 4 2) = nat 4 \<and>
   snd (generateSeatBlocks 68 4 2 ! 3) < 68 \<and>
   snd (generateSeatBlocks 68 4 2 ! 0) < fst (generateSeatBlocks 68 4 2 ! 1)"
proof -
  have bw: "blockWidth_of 68 4 2 = 14" by (simp add: blockWidth_of_def)
  have l: "generateSeatBlocks 68 4 2 = [(2, 15), (18, 31), (34, 47), (50, 63)]"
    by (simp add: generateSeatBlocks_def Let_def upto.simps)
  have "(3::nat) < nat 4" "(0::nat) < 1 \<and> (1::nat) < nat 4" by simp_all
  with generateSeatBlocks_layout [of 4 2 68] bw l show ?thesis by simp
qed

subsection \<open>Corridor width\<close>








subsection \<open>Configuration changes\<close>

text \<open>
  C9: for a key with a validation range, \<open>set\<close> with an out-of-range value returns the
  manager unchanged (every stored value, the listeners and the log of notifications),
  and \<open>set\<close> with an in-range value stores the value under the key and invokes every
  listener once, in order, with the key and the value.  \<open>set\<close> is a total function:
  it raises nothing in either case.
\<close>

theorem cm_set_validation:
  assumes "validations key = Some validator"
  shows "(\<not> validator (toNumber v) \<longrightarrow> cm_set m key v = m)
    \<and> (validator (toNumber v) \<longrightarrow>
         cm_config (cm_set m key v) key = Some v
         \<and> listeners (cm_set m key v) = listeners m
         \<and> notified (cm_set m key v) = notified m @ map (\<lambda>callback. (callback, key, v)) (listeners m))"
  using assms
  by (auto simp: cm_set_def validate_def Let_def notifyListeners_def cm_calculateCorridorWidth_def)

theorem cm_set_validation_witness:
  "cm_set (addListener cm_new 7) ''NUM_AGENTS'' (Num 20) = addListener cm_new 7
   \<and> cm_config (cm_set (addListener cm_new 7) ''NUM_AGENTS'' (Num 60)) ''NUM_AGENTS'' = Some (Num 60)
   \<and> notified (cm_set (addListener cm_new 7) ''NUM_AGENTS'' (Num 60)) = [(7, ''NUM_AGENTS'', Num 60)]"
proof -
  have v: "validations ''NUM_AGENTS'' = Some (\<lambda>v. v \<ge> 50 \<and> v \<le> 500)"
    by (simp add: validations_def)
  have l: "listeners (addListener cm_new 7) = [7]" "notified (addListener cm_new 7) = []"
    by (simp_all add: addListener_def cm_new_def cm_calculateCorridorWidth_def)
  from cm_set_validation[OF v, of "Num 20" "addListener cm_new 7"]
       cm_set_validation[OF v, of "Num 60" "addListener cm_new 7"] l
  show ?thesis by simp
qed

subsection \<open>Weighted choice\<close>



lemma weightedChoice_loop_mem:
  "weightedChoice_loop xs ws rnd = Some x \<Longrightarrow> x \<in> set xs"
  by (induction xs ws rnd rule: weightedChoice_loop.induct) (auto split: if_splits)








subsection \<open>Paths\<close>

lemma for_ne_up:
  "x \<le> stop \<Longrightarrow> for_ne x stop 1 cell p = Some (p @ map cell [x .. stop - 1])"
proof (induction "nat (stop - x)" arbitrary: x p)
  case 0
  then have "x = stop" by simp
  then show ?case by (subst for_ne.simps) simp
next
  case (Suc n)
  then have lt: "x < stop" and n: "n = nat (stop - (x + 1))" by auto
  have "for_ne (x + 1) stop 1 cell (p @ [cell x]) = Some ((p @ [cell x]) @ map cell [x + 1 .. stop - 1])"
    using Suc(1)[OF n] lt by simp
  moreover have "[x .. stop - 1] = x # [x + 1 .. stop - 1]" using lt by (simp add: upto_rec1)
  ultimately show ?case using lt by (subst for_ne.simps) simp
qed

lemma for_ne_down:
  "stop \<le> x \<Longrightarrow> for_ne x stop (- 1) cell p = Some (p @ map cell (rev [stop + 1 .. x]))"
proof (induction "nat (x - stop)" arbitrary: x p)
  case 0
  then have "x = stop" by simp
  then show ?case by (subst for_ne.simps) simp
next
  case (Suc n)
  then have lt: "stop < x" and n: "n = nat (x - 1 - stop)" by auto
  have "for_ne (x - 1) stop (- 1) cell (p @ [cell x])
          = Some ((p @ [cell x]) @ map cell (rev [stop + 1 .. x - 1]))"
    using Suc(1)[OF n] lt by simp
  moreover have "[stop + 1 .. x] = [stop + 1 .. x - 1] @ [x]" using lt by (simp add: upto_rec2)
  ultimately show ?case using lt by (subst for_ne.simps) simp
qed

lemma for_down_eq: "for_down x lo cell p = p @ map cell (rev [lo .. x])"
proof (induction x lo cell p rule: for_down.induct)
  case (1 x lo cell p)
  show ?case
  proof (cases "lo \<le> x")
    case True
    then have "[lo .. x] = [lo .. x - 1] @ [x]" by (simp add: upto_rec2)
    with 1 True show ?thesis by (subst for_down.simps) simp
  next
    case False
    then show ?thesis by (subst for_down.simps) simp
  qed
qed

lemma for_ne_leg:
  "a \<noteq> b \<Longrightarrow>
   for_ne (a + (if b > a then 1 else - 1)) (b + (if b > a then 1 else - 1)) (if b > a then 1 else - 1) cell p
     = Some (p @ map cell (leg a b))"
  using for_ne_up[of "a + 1" "b + 1" cell p] for_ne_down[of "b - 1" "a - 1" cell p]
  by (auto simp: leg_def)

lemma leg_same: "leg a a = []"
  by (simp add: leg_def)

lemma computeSimplePath_eq:
  "computeSimplePath (r, c) corr (r1, c1) turnRow =
     Some (map (\<lambda>rr. (rr, c)) (leg r turnRow)
           @ map (\<lambda>cc. (turnRow, cc)) (leg c corr)
           @ map (\<lambda>rr. (rr, corr)) (leg_up turnRow r1)
           @ map (\<lambda>cc. (r1, cc)) (leg corr c1))"
proof -
  have l1: "(if r \<noteq> turnRow then let step = (if r > turnRow then - 1 else 1)
                    in for_ne (r + step) (turnRow + step) step (\<lambda>rr. (rr, c)) []
               else Some []) = Some (map (\<lambda>rr. (rr, c)) (leg r turnRow))"
    using for_ne_leg[of r turnRow "\<lambda>rr. (rr, c)" "[]"] by (auto simp: leg_same Let_def)
  have l2: "(if c \<noteq> corr then let step = (if corr > c then 1 else - 1)
                    in for_ne (c + step) (corr + step) step (\<lambda>cc. (turnRow, cc)) p
               else Some p) = Some (p @ map (\<lambda>cc. (turnRow, cc)) (leg c corr))" for p
    using for_ne_leg[of c corr "\<lambda>cc. (turnRow, cc)" p] by (auto simp: leg_same Let_def)
  have l3: "(if turnRow > r1 then for_down (turnRow - 1) r1 (\<lambda>rr. (rr, corr)) p else p)
              = p @ map (\<lambda>rr. (rr, corr)) (leg_up turnRow r1)" for p
    by (simp add: for_down_eq leg_up_def)
  have l4: "(if corr \<noteq> c1 then let step = (if c1 > corr then 1 else - 1)
              in for_ne (corr + step) (c1 + step) step (\<lambda>cc. (r1, cc)) p
         else Some p) = Some (p @ map (\<lambda>cc. (r1, cc)) (leg corr c1))" for p
    using for_ne_leg[of corr c1 "\<lambda>cc. (r1, cc)" p] by (auto simp: leg_same Let_def)
  show ?thesis
    unfolding computeSimplePath_def by (simp add: l1 l2 l3 l4 leg_same leg_up_def)
qed

text \<open>
  C6: for every spawn cell, corridor column, seat cell and turn row,
  \<open>computeSimplePath\<close> returns, and its result is the concatenation of four legs in
  this order: the cells of the spawn's column from the spawn row to the turn row; the
  cells of the turn row from the spawn's column to the corridor column; the cells of
  the corridor column going up from the turn row to the seat's row (rows decrease
  towards the seats, so this leg has no cell unless the seat's row is above the turn
  row); the cells of the seat's row from the corridor column to the seat's column.  A
  leg whose start coordinate equals its end coordinate is empty.  On integer
  coordinates nothing in the function can fail, so the empty path of the \<open>catch\<close>
  never arises.
\<close>

theorem computeSimplePath_legs:
  "computeSimplePath (r, c) corr (r1, c1) turnRow =
     Some (map (\<lambda>rr. (rr, c)) (leg r turnRow)
           @ map (\<lambda>cc. (turnRow, cc)) (leg c corr)
           @ map (\<lambda>rr. (rr, corr)) (leg_up turnRow r1)
           @ map (\<lambda>cc. (r1, cc)) (leg corr c1))
   \<and> leg r r = [] \<and> leg_up r r = []"
  by (simp add: computeSimplePath_eq leg_same leg_up_def)

subsection \<open>Standing positions\<close>

lemma those_map_Some: "those (map (\<lambda>x. Some (f x)) xs) = Some (map f xs)"
  by (induction xs) auto

lemma rowCells_row:
  "0 \<le> r \<Longrightarrow> r < nrows g \<Longrightarrow> rowCells g r c0 c1 = Some (map (\<lambda>c. (c, cells g (r, c))) [c0 .. c1])"
  by (simp add: rowCells_def cellAt_def those_map_Some)

lemma rowCells_no_row:
  "\<not> (0 \<le> r \<and> r < nrows g) \<Longrightarrow> c0 \<le> c1 \<Longrightarrow> rowCells g r c0 c1 = None"
  by (auto simp: rowCells_def cellAt_def upto_rec1[of c0 c1])

lemma standingCandidates_row:
  "0 \<le> r \<Longrightarrow> r < nrows g \<Longrightarrow> standingCandidates g r = Some (standingRow g r)"
  by (simp add: standingCandidates_def rowCells_row standingRow_def filter_map comp_def)

lemma standingScan_rows:
  "\<forall>r \<in> set rs. 0 \<le> r \<and> r < nrows g \<Longrightarrow>
   standingScan g rs = Some (map_option (standingRow g) (find (\<lambda>r. standingRow g r \<noteq> []) rs))"
  by (induction rs) (auto simp: standingCandidates_row)







subsection \<open>Seat selection\<close>

text \<open>
  Whatever the random draws, a seat returned by \<open>pickSeatInBlock\<close> is a cell of an
  existing seat row that holds a \<open>SEAT\<close> and is not in the assigned set.
\<close>

lemma nth_opt_mem: "nth_opt xs i = Some x \<Longrightarrow> x \<in> set xs"
  by (auto simp: nth_opt_def split: if_splits)

lemma weightedChoice_mem:
  "weightedChoice e items ws k = (Some x, k') \<Longrightarrow> x \<in> set items"
  by (auto simp: weightedChoice_def Let_def split: if_splits option.splits
      dest: nth_opt_mem weightedChoice_loop_mem)

lemma those_map_all2:
  "those (map f xs) = Some ys \<Longrightarrow> list_all2 (\<lambda>x y. f x = Some y) xs ys"
proof (induction xs arbitrary: ys)
  case Nil then show ?case by simp
next
  case (Cons x xs)
  then show ?case by (auto split: option.splits)
qed

lemma rowCells_Some:
  assumes "rowCells g r c0 c1 = Some cs"
  shows "cs = map (\<lambda>c. (c, cells g (r, c))) [c0 .. c1] \<and> (c0 \<le> c1 \<longrightarrow> 0 \<le> r \<and> r < nrows g)"
proof (cases "0 \<le> r \<and> r < nrows g")
  case True
  then have "rowCells g r c0 c1 = Some (map (\<lambda>c. (c, cells g (r, c))) [c0 .. c1])"
    by (simp add: rowCells_row)
  with assms True show ?thesis by simp
next
  case False
  have "\<not> c0 \<le> c1"
  proof
    assume "c0 \<le> c1"
    from rowCells_no_row[OF False this] assms show False by simp
  qed
  with assms show ?thesis by (simp add: rowCells_def)
qed

lemma freeSeatCols_Some:
  assumes "freeSeatCols g asg r c0 c1 = Some cols" "c \<in> set cols"
  shows "cells g (r, c) = Some SEAT \<and> (r, c) \<notin> asg \<and> 0 \<le> r \<and> r < nrows g \<and> c0 \<le> c \<and> c \<le> c1"
proof -
  from assms(1) obtain cs where cs: "rowCells g r c0 c1 = Some cs"
    and cols: "cols = map fst (filter (\<lambda>(c, v). v = Some SEAT \<and> (r, c) \<notin> asg) cs)"
    by (auto simp: freeSeatCols_def)
  from rowCells_Some[OF cs] have cs': "cs = map (\<lambda>c. (c, cells g (r, c))) [c0 .. c1]"
    and row: "c0 \<le> c1 \<longrightarrow> 0 \<le> r \<and> r < nrows g" by simp_all
  from assms(2) cols cs' have "c \<in> set [c0 .. c1]" "cells g (r, c) = Some SEAT" "(r, c) \<notin> asg"
    by auto
  with row show ?thesis by auto
qed

lemma those_map_Pair_fst:
  "those (map (\<lambda>r. map_option (Pair r) (F r)) rs) = Some flags \<Longrightarrow> map fst flags = rs"
proof (induction rs arbitrary: flags)
  case Nil then show ?case by simp
next
  case (Cons r rs)
  then show ?case by (auto split: option.splits)
qed

lemma availableRows_range:
  assumes "availableRows g asg c0 c1 thr = Some avail" "r \<in> set avail"
  shows "SEAT_ROWS_START \<le> r \<and> r < SEAT_ROWS_END"
proof -
  from assms(1) obtain flags where
    f: "those (map (\<lambda>r. map_option (Pair r) (rowAvailable g asg c0 c1 thr r))
                   [SEAT_ROWS_START .. SEAT_ROWS_END - 1]) = Some flags"
    and a: "avail = map fst (filter snd flags)"
    by (auto simp: availableRows_def)
  from a assms(2) have "r \<in> set (map fst flags)" by auto
  with those_map_Pair_fst[OF f] show ?thesis by simp
qed

lemma banFront_subset: "banFront bp avail = (cand, b) \<Longrightarrow> set cand \<subseteq> set avail"
  by (auto simp: banFront_def Let_def split: if_splits)

lemma probAversion_subset:
  assumes "probAversion e bp cand k = (cand', k')"
  shows "set cand' \<subseteq> set cand"
proof -
  define p1 where "p1 = (if rng e k < min (0.15 + 0.15 * bp) 0.85
                            \<and> filter (\<lambda>r. Some r \<noteq> nth_opt (sort cand) 0) cand \<noteq> []
                         then filter (\<lambda>r. Some r \<noteq> nth_opt (sort cand) 0) cand else cand)"
  define p2 where "p2 = (if (length p1 > 1 \<and> nth_opt (sort cand) 1 \<noteq> None)
                            \<and> rng e (k + 1) < (if bp \<ge> 4 then 0.35 else if bp \<ge> 3 then 0.2 else 0)
                            \<and> filter (\<lambda>r. Some r \<noteq> nth_opt (sort cand) 1) p1 \<noteq> []
                         then filter (\<lambda>r. Some r \<noteq> nth_opt (sort cand) 1) p1 else p1)"
  have p1: "set p1 \<subseteq> set cand" by (auto simp: p1_def)
  have p2: "set p2 \<subseteq> set p1" by (auto simp: p2_def)
  have "probAversion e bp cand k =
          (if p2 \<noteq> [] \<and> length p2 \<noteq> length cand
           then (p2, (if length p1 > 1 \<and> nth_opt (sort cand) 1 \<noteq> None then k + 2 else k + 1) + 1)
           else (cand, (if length p1 > 1 \<and> nth_opt (sort cand) 1 \<noteq> None then k + 2 else k + 1)))"
    by (simp only: probAversion_def Let_def p1_def p2_def)
  with assms have "cand' = (if p2 \<noteq> [] \<and> length p2 \<noteq> length cand then p2 else cand)"
    by (auto split: if_splits)
  with p1 p2 show ?thesis by (auto split: if_splits)
qed

lemma frontAversion_subset:
  assumes "frontAversion e bp avail k = (cand, k')"
  shows "set cand \<subseteq> set avail"
proof -
  obtain c0 b where bf: "banFront bp avail = (c0, b)" by (cases "banFront bp avail")
  from banFront_subset[OF bf] have c0: "set c0 \<subseteq> set avail" .
  show ?thesis
  proof (cases "c0 = []")
    case True
    with assms bf show ?thesis by (simp add: frontAversion_def)
  next
    case False
    with assms bf have "probAversion e bp c0 (if b then k + 1 else k) = (cand, k')"
      by (simp add: frontAversion_def)
    from probAversion_subset[OF this] c0 show ?thesis by auto
  qed
qed

lemma chooseRow_mem:
  "chooseRow e bp cand k = (Some row, k') \<Longrightarrow> row \<in> set cand"
  by (auto simp: chooseRow_def Let_def split: if_splits prod.splits
      dest: weightedChoice_mem nth_opt_mem)

lemma pickRow_mem:
  assumes "pickRow e cfg avail k = (Some row, k')"
  shows "row \<in> set avail"
proof -
  obtain cand k1 where
    c: "(if BACK_PREF cfg > 0 then frontAversion e (BACK_PREF cfg) avail k else (avail, k)) = (cand, k1)"
    by (cases "if BACK_PREF cfg > 0 then frontAversion e (BACK_PREF cfg) avail k else (avail, k)")
  with assms have "chooseRow e (BACK_PREF cfg) cand k1 = (Some row, k')"
    by (simp add: pickRow_def)
  then have "row \<in> set cand" by (rule chooseRow_mem)
  moreover have "set cand \<subseteq> set avail"
    using c by (auto split: if_splits dest: frontAversion_subset)
  ultimately show ?thesis by auto
qed

lemma pickSeatInRow_sound:
  assumes "pickSeatInRow e g asg cfg c0 c1 chosen k = (Some st, k')"
  shows "\<exists>row. chosen = Some row \<and> fst st = row \<and> st \<notin> asg \<and> cells g st = Some SEAT
           \<and> 0 \<le> row \<and> row < nrows g \<and> c0 \<le> snd st \<and> snd st \<le> c1"
proof -
  from assms obtain row cols where row: "chosen = Some row"
    and cols: "freeSeatCols g asg row c0 c1 = Some cols"
    by (auto simp: pickSeatInRow_def split: option.splits)
  from assms row cols obtain k2 where
    "weightedChoice e (map (Pair row) cols) (map (\<lambda>c. seatWeight g cfg row c c0 c1) cols)
       (k + length cols) = (Some st, k2)"
    by (auto simp: pickSeatInRow_def Let_def split: if_splits prod.splits)
  then have "st \<in> set (map (Pair row) cols)" by (rule weightedChoice_mem)
  then obtain c where st: "st = (row, c)" and c: "c \<in> set cols" by auto
  from freeSeatCols_Some[OF cols c] st row show ?thesis by simp
qed

lemma pickSeatInBlock_sound:
  assumes "pickSeatInBlock e g blk asg blocks cfg thr k = (Some st, k')"
  shows "st \<notin> asg \<and> cells g st = Some SEAT \<and> 0 \<le> fst st \<and> fst st < nrows g
         \<and> SEAT_ROWS_START \<le> fst st \<and> fst st < SEAT_ROWS_END"
proof -
  from assms obtain c0 c1 avail where
    avail: "availableRows g asg c0 c1 thr = Some avail"
    and rest: "(let (chosenRow, k1) = pickRow e cfg avail k
                in pickSeatInRow e g asg cfg c0 c1 chosenRow k1) = (Some st, k')"
    unfolding pickSeatInBlock_def
    by (auto split: option.splits if_splits)
  obtain chosen k1 where pr: "pickRow e cfg avail k = (chosen, k1)"
    by (cases "pickRow e cfg avail k")
  with rest have "pickSeatInRow e g asg cfg c0 c1 chosen k1 = (Some st, k')" by simp
  from pickSeatInRow_sound[OF this] obtain row where row: "chosen = Some row" "fst st = row"
    and st: "st \<notin> asg" "cells g st = Some SEAT" "0 \<le> row" "row < nrows g" by auto
  from pr row have "row \<in> set avail" by (auto dest: pickRow_mem)
  with availableRows_range[OF avail] row st show ?thesis by simp
qed

lemma pickSeatAnyBlock_loop_sound:
  "pickSeatAnyBlock_loop e g asg blocks cfg thr bs k = (Some (b, st), k') \<Longrightarrow>
   \<exists>k0 k1. pickSeatInBlock e g (Some b) asg blocks cfg thr k0 = (Some st, k1)"
proof (induction bs arbitrary: k)
  case Nil then show ?case by simp
next
  case (Cons b' bs)
  show ?case
  proof (cases "pickSeatInBlock e g (Some b') asg blocks cfg thr k")
    case (Pair r k1)
    show ?thesis
    proof (cases r)
      case None
      with Pair Cons show ?thesis by auto
    next
      case (Some s)
      with Pair Cons.prems show ?thesis by auto
    qed
  qed
qed

lemma pickSeatAnyBlock_sound:
  "pickSeatAnyBlock e g asg blocks cfg thr k = (Some (b, st), k') \<Longrightarrow>
   \<exists>k0 k1. pickSeatInBlock e g (Some b) asg blocks cfg thr k0 = (Some st, k1)"
  by (auto simp: pickSeatAnyBlock_def Let_def split: prod.splits dest: pickSeatAnyBlock_loop_sound)


subsection \<open>Agents and the spawn loop\<close>

text \<open>What the two branches of the constructor return.\<close>

lemma Agent_seatBound_Some:
  assumes "Agent_seatBound e spawn asg b2c cfg blk st k = Some (a, asg', k')"
  shows "pos a = spawn \<and> \<not> seated a \<and> \<not> standing a \<and> \<not> willStand a \<and> seat a = Some st
    \<and> asg' = (if FEATURE_ASSIGNED_SEATS cfg then insert st asg else asg)
    \<and> (\<exists>cc k1. computeSimplePath spawn cc st (PATH_ROW_RANGE_START + \<lfloor>rng e k1 * 4\<rfloor>) = Some (path a))"
proof -
  obtain corr k1 where c: "pickPreferredCorridorCell e blk (snd st) b2c k = (corr, k1)"
    by (cases "pickPreferredCorridorCell e blk (snd st) b2c k")
  with assms obtain cc where cc: "corr = Some cc"
    by (cases corr) (auto simp: Agent_seatBound_def Let_def)
  from assms c cc obtain p where
    p: "computeSimplePath spawn cc st (PATH_ROW_RANGE_START + \<lfloor>rng e k1 * 4\<rfloor>) = Some p"
    and a: "a = \<lparr>pos = spawn, seated = False, standing = False, willStand = False,
                 block = blk, seat = Some st, corridor = corr,
                 row0 = PATH_ROW_RANGE_START + \<lfloor>rng e k1 * 4\<rfloor>, path = p\<rparr>"
    and asg: "asg' = (if FEATURE_ASSIGNED_SEATS cfg then insert st asg else asg)"
    by (auto simp: Agent_seatBound_def Let_def)
  from a p asg show ?thesis by auto
qed

lemma Agent_willStand_Some:
  assumes "Agent_willStand e g spawn asg cfg blk k = Some (a, asg', k')"
  shows "pos a = spawn \<and> \<not> seated a \<and> asg' = asg
    \<and> (case fst (findStandingPosition e g k) of
          None \<Rightarrow> standing a \<and> \<not> willStand a \<and> seat a = None \<and> path a = []
        | Some sp \<Rightarrow> \<not> standing a \<and> willStand a \<and> seat a = Some sp
            \<and> computeSimplePath spawn (CORRIDOR_WIDTH cfg) sp 19 = Some (path a))"
proof -
  obtain sp k1 where f: "findStandingPosition e g k = (sp, k1)"
    by (cases "findStandingPosition e g k")
  show ?thesis
  proof (cases sp)
    case None
    with assms f show ?thesis by (auto simp: Agent_willStand_def)
  next
    case (Some p)
    with assms f obtain z where z: "computeSimplePath spawn (CORRIDOR_WIDTH cfg) p 19 = Some z"
      and a: "a = \<lparr>pos = spawn, seated = False, standing = False, willStand = True,
                    block = blk, seat = Some p, corridor = Some (CORRIDOR_WIDTH cfg), row0 = 19,
                    path = z\<rparr>" and asg: "asg' = asg"
      by (auto simp: Agent_willStand_def)
    from f Some z a asg show ?thesis by simp
  qed
qed

lemma Agent_new_Some:
  assumes "Agent_new e g spawn asg blocks b2c cfg gts k = Some (a, asg', k')"
  shows "(\<exists>blk blk' st k0 k1 k2.
            pickSeatInBlock e g blk asg blocks cfg DEFAULT_ROW_THRESHOLD k0 = (Some st, k1)
            \<and> Agent_seatBound e spawn asg b2c cfg blk' st k2 = Some (a, asg', k'))
       \<or> (\<exists>blk k1. Agent_willStand e g spawn asg cfg blk k1 = Some (a, asg', k'))"
proof -
  obtain b0 k1 where b0: "pickBlockBasedOnGate e (snd spawn) (int (length blocks)) gts k = (b0, k1)"
    by (cases "pickBlockBasedOnGate e (snd spawn) (int (length blocks)) gts k")
  define blk where "blk = (case b0 of None \<Rightarrow> None
                 | Some b \<Rightarrow> if b \<ge> int (length blocks) then Some (int (length blocks) - 1) else Some b)"
  obtain seat0 k2 where s0: "pickSeatInBlock e g blk asg blocks cfg DEFAULT_ROW_THRESHOLD k1 = (seat0, k2)"
    by (cases "pickSeatInBlock e g blk asg blocks cfg DEFAULT_ROW_THRESHOLD k1")
  show ?thesis
  proof (cases seat0)
    case (Some st)
    with assms b0 s0 have "Agent_seatBound e spawn asg b2c cfg blk st k2 = Some (a, asg', k')"
      by (simp add: Agent_new_def Let_def blk_def)
    with s0 Some show ?thesis by blast
  next
    case None
    obtain bs k3 where any: "pickSeatAnyBlock e g asg blocks cfg DEFAULT_ROW_THRESHOLD k2 = (bs, k3)"
      by (cases "pickSeatAnyBlock e g asg blocks cfg DEFAULT_ROW_THRESHOLD k2")
    show ?thesis
    proof (cases bs)
      case None': None
      with assms b0 s0 None any have "Agent_willStand e g spawn asg cfg blk k3 = Some (a, asg', k')"
        by (simp add: Agent_new_def Let_def blk_def)
      then show ?thesis by blast
    next
      case (Some bst)
      obtain b st where bst: "bst = (b, st)" by (cases bst)
      with assms b0 s0 None any Some
      have sb: "Agent_seatBound e spawn asg b2c cfg (Some b) st k3 = Some (a, asg', k')"
        by (simp add: Agent_new_def Let_def blk_def)
      from pickSeatAnyBlock_sound any Some bst obtain k0 k1' where
        "pickSeatInBlock e g (Some b) asg blocks cfg DEFAULT_ROW_THRESHOLD k0 = (Some st, k1')"
        by blast
      with sb show ?thesis by blast
    qed
  qed
qed

text \<open>What the constructor does to the flags and the assigned set.\<close>

lemma Agent_new_flags:
  assumes "Agent_new e g spawn asg blocks b2c cfg gts k = Some (a, asg', k')"
  shows "\<not> seated a \<and> pos a = spawn"
  using Agent_new_Some[OF assms]
  by (auto dest!: Agent_seatBound_Some Agent_willStand_Some split: option.splits)

lemma Agent_new_assigned_off:
  assumes "Agent_new e g spawn asg blocks b2c cfg gts k = Some (a, asg', k')"
    and "\<not> FEATURE_ASSIGNED_SEATS cfg"
  shows "asg' = asg"
  using Agent_new_Some[OF assms(1)] assms(2)
  by (auto dest!: Agent_seatBound_Some Agent_willStand_Some)

lemma Agent_new_assigned_on:
  assumes "Agent_new e g spawn asg blocks b2c cfg gts k = Some (a, asg', k')"
    and "FEATURE_ASSIGNED_SEATS cfg"
  shows "(willStand a \<or> seat a = None) \<and> asg' = asg
       \<or> \<not> willStand a \<and> (\<exists>st. seat a = Some st \<and> st \<notin> asg \<and> asg' = insert st asg)"
  using Agent_new_Some[OF assms(1)]
proof (elim disjE exE conjE)
  fix blk blk' st k0 k1 k2
  assume p: "pickSeatInBlock e g blk asg blocks cfg DEFAULT_ROW_THRESHOLD k0 = (Some st, k1)"
    and s: "Agent_seatBound e spawn asg b2c cfg blk' st k2 = Some (a, asg', k')"
  from pickSeatInBlock_sound[OF p] Agent_seatBound_Some[OF s] assms(2)
  show ?thesis by auto
next
  fix blk k1
  assume "Agent_willStand e g spawn asg cfg blk k1 = Some (a, asg', k')"
  from Agent_willStand_Some[OF this] show ?thesis by (auto split: option.splits)
qed

text \<open>An agent's own update.\<close>

lemma Agent_update_fields:
  assumes "Agent_update a g = (a', g')"
  shows "willStand a' = willStand a \<and> seat a' = seat a \<and> nrows g' = nrows g
       \<and> (\<not> (seated a \<and> standing a) \<longrightarrow> \<not> (seated a' \<and> standing a'))"
  using assms
  by (auto simp: Agent_update_def grid_set_def split: if_splits option.splits)

lemma updateAgents_all2:
  "updateAgents as g = (as', g') \<Longrightarrow>
   list_all2 (\<lambda>a a'. willStand a' = willStand a \<and> seat a' = seat a
                \<and> (\<not> (seated a \<and> standing a) \<longrightarrow> \<not> (seated a' \<and> standing a'))) as as'"
proof (induction as arbitrary: g as' g')
  case Nil then show ?case by simp
next
  case (Cons a as)
  obtain a1 g1 where u: "(if \<not> seated a \<and> \<not> standing a then Agent_update a g else (a, g)) = (a1, g1)"
    by (cases "if \<not> seated a \<and> \<not> standing a then Agent_update a g else (a, g)")
  obtain as1 g2 where r: "updateAgents as g1 = (as1, g2)" by (cases "updateAgents as g1")
  from Cons.prems u r have as': "as' = a1 # as1" by simp
  have "willStand a1 = willStand a \<and> seat a1 = seat a
        \<and> (\<not> (seated a \<and> standing a) \<longrightarrow> \<not> (seated a1 \<and> standing a1))"
    using u Agent_update_fields[of a g a1 g1] by (auto split: if_splits)
  with Cons.IH[OF r] as' show ?case by simp
qed

text \<open>The spawn loop, step by step.\<close>

lemma spawnLoop_rule:
  assumes res: "spawnLoop e gs occ s = Some (s', b)"
    and start: "Q gs s"
    and skip: "\<And>gate rest s. Q (gate # rest) s \<Longrightarrow> Q rest s"
    and spawn: "\<And>gate rest s a asg' k'. Q (gate # rest) s \<Longrightarrow>
        spawned s < NUM_AGENTS (config s) \<Longrightarrow>
        Agent_new e (grid s) gate (assigned s) (seatBlocks s) (blockToCorridorCells s)
          ((config s)\<lparr>BACK_PREF := max 0 (BACK_PREF (config s)
              * backPrefMultiplier (spawned s) (NUM_AGENTS (config s)))\<rparr>)
          (gates s) (draws s) = Some (a, asg', k') \<Longrightarrow>
        (case (if willStand a then seat a else None) of
           None \<Rightarrow> Q rest (s\<lparr>agents := agents s @ [a], spawned := spawned s + 1,
                              assigned := asg', draws := k'\<rparr>)
         | Some (r, c) \<Rightarrow>
             (case grid_set (grid s) r c STANDING of
                None \<Rightarrow> R (s\<lparr>agents := agents s @ [a], spawned := spawned s + 1,
                              assigned := asg', draws := k'\<rparr>)
              | Some g' \<Rightarrow> Q rest (s\<lparr>agents := agents s @ [a], spawned := spawned s + 1,
                              assigned := asg', draws := k', grid := g'\<rparr>)))"
  shows "if b then R s' else Q [] s'"
  using res start
proof (induction gs arbitrary: occ s)
  case Nil
  then show ?case by simp
next
  case (Cons gate rest)
  show ?case
  proof (cases "spawned s < NUM_AGENTS (config s) \<and> gate \<notin> occ")
    case False
    with Cons.prems have "spawnLoop e rest occ s = Some (s', b)" by auto
    from Cons.IH[OF this skip[OF Cons.prems(2)]] show ?thesis .
  next
    case True
    let ?cfg = "(config s)\<lparr>BACK_PREF := max 0 (BACK_PREF (config s)
              * backPrefMultiplier (spawned s) (NUM_AGENTS (config s)))\<rparr>"
    from True Cons.prems(1) obtain a asg' k' where
      new: "Agent_new e (grid s) gate (assigned s) (seatBlocks s) (blockToCorridorCells s)
              ?cfg (gates s) (draws s) = Some (a, asg', k')"
      by (auto simp: Let_def split: option.splits)
    let ?s1 = "s\<lparr>agents := agents s @ [a], spawned := spawned s + 1,
                  assigned := asg', draws := k'\<rparr>"
    from True have lt: "spawned s < NUM_AGENTS (config s)" by simp
    note step = spawn[OF Cons.prems(2) lt new]
    show ?thesis
    proof (cases "if willStand a then seat a else None")
      case None
      with step have q: "Q rest ?s1" by simp
      from True new None Cons.prems(1)
      have "spawnLoop e rest (insert gate occ) ?s1 = Some (s', b)"
        by (simp add: Let_def)
      from Cons.IH[OF this q] show ?thesis .
    next
      case (Some rc)
      obtain r c where rc: "rc = (r, c)" by (cases rc)
      show ?thesis
      proof (cases "grid_set (grid s) r c STANDING")
        case None
        with step Some rc have "R ?s1" by simp
        moreover from True new Some rc None Cons.prems(1) have "s' = ?s1 \<and> b"
          by (simp add: Let_def)
        ultimately show ?thesis by simp
      next
        case g': (Some g')
        with step Some rc have q: "Q rest (?s1\<lparr>grid := g'\<rparr>)" by simp
        from True new Some rc g' Cons.prems(1)
        have "spawnLoop e rest (insert gate occ) (?s1\<lparr>grid := g'\<rparr>) = Some (s', b)"
          by (simp add: Let_def)
        from Cons.IH[OF this q] show ?thesis .
      qed
    qed
  qed
qed


subsection \<open>The engine's bookkeeping\<close>

text \<open>The three ways in which \<open>update\<close> returns.\<close>

lemma update_Some:
  assumes "update e s = Some (s', r)"
  shows "(completed s \<and> s' = s)
    \<or> (\<exists>s1. spawnLoop e (gates s)
               (set (map pos (filter (\<lambda>a. \<not> seated a \<and> \<not> standing a) (agents s)))) s
              = Some (s1, True)
            \<and> s' = s1\<lparr>completed := True\<rparr>)
    \<or> (\<exists>s1 as' g' ch c. spawnLoop e (gates s)
               (set (map pos (filter (\<lambda>a. \<not> seated a \<and> \<not> standing a) (agents s)))) s
              = Some (s1, False)
            \<and> updateAgents (agents s1) (grid s1) = (as', g')
            \<and> s' = s1\<lparr>agents := as', grid := g', time := time s1 + 1, chart := ch,
                       completed := c\<rparr>)"
proof (cases "completed s")
  case True
  with assms show ?thesis by (simp add: update_def)
next
  case False
  let ?occ = "set (map pos (filter (\<lambda>a. \<not> seated a \<and> \<not> standing a) (agents s)))"
  from False assms obtain s1 b where sl: "spawnLoop e (gates s) ?occ s = Some (s1, b)"
    by (auto simp: update_def Let_def split: option.splits)
  show ?thesis
  proof (cases b)
    case True
    with False assms sl show ?thesis by (simp add: update_def Let_def)
  next
    case b: False
    obtain as' g' where ua: "updateAgents (agents s1) (grid s1) = (as', g')"
      by (cases "updateAgents (agents s1) (grid s1)")
    let ?s2 = "s1\<lparr>agents := as', grid := g', time := time s1 + 1,
                  chart := \<lparr>chart_time = chart_time (chart s1) @ [time s1 + 1],
                            chart_seated = chart_seated (chart s1) @ [count seated as'],
                            chart_standing = chart_standing (chart s1) @ [count standing as']\<rparr>\<rparr>"
    from False assms sl b ua have "s' = ?s2\<lparr>completed := True\<rparr> \<or> s' = ?s2"
      by (auto simp: update_def Let_def split: if_splits)
    moreover have "?s2 = ?s2\<lparr>completed := completed ?s2\<rparr>" by simp
    ultimately obtain c where
      "s' = s1\<lparr>agents := as', grid := g', time := time s1 + 1,
                  chart := \<lparr>chart_time = chart_time (chart s1) @ [time s1 + 1],
                            chart_seated = chart_seated (chart s1) @ [count seated as'],
                            chart_standing = chart_standing (chart s1) @ [count standing as']\<rparr>,
                  completed := c\<rparr>"
      by metis
    moreover from sl b have "spawnLoop e (gates s) ?occ s = Some (s1, False)" by simp
    ultimately show ?thesis using ua by blast
  qed
qed

lemma reachable_config: "reachable e P s \<Longrightarrow> P (config s)"
proof (induction rule: reachable.induct)
  case (constructed cfg k)
  then show ?case by (simp add: SimulationEngine_def)
next
  case (initialized s)
  then show ?case by (auto simp: initialize_def Let_def split: option.splits)
next
  case (updated s s' r)
  have "config s' = config s"
    using update_Some[OF updated(2)]
  proof (elim disjE exE conjE)
    fix s1 assume sl: "spawnLoop e (gates s)
               (set (map pos (filter (\<lambda>a. \<not> seated a \<and> \<not> standing a) (agents s)))) s
              = Some (s1, True)" and s': "s' = s1\<lparr>completed := True\<rparr>"
    from spawnLoop_rule[OF sl, where Q = "\<lambda>gs t. config t = config s" and R = "\<lambda>t. config t = config s"]
    have "config s1 = config s" by (auto split: option.splits)
    with s' show ?thesis by simp
  next
    fix s1 as' g' ch c assume sl: "spawnLoop e (gates s)
               (set (map pos (filter (\<lambda>a. \<not> seated a \<and> \<not> standing a) (agents s)))) s
              = Some (s1, False)"
      and s': "s' = s1\<lparr>agents := as', grid := g', time := time s1 + 1, chart := ch,
                       completed := c\<rparr>"
    from spawnLoop_rule[OF sl, where Q = "\<lambda>gs t. config t = config s" and R = "\<lambda>t. config t = config s"]
    have "config s1 = config s" by (auto split: option.splits)
    with s' show ?thesis by simp
  qed simp
  with updated show ?case by simp
next
  case (reconfigured s cfg)
  then show ?case by simp
qed

lemma count_partition:
  "\<forall>a \<in> set as. \<not> (seated a \<and> standing a) \<Longrightarrow>
   count seated as + count standing as + count (\<lambda>a. \<not> seated a \<and> \<not> standing a) as = int (length as)"
  by (induction as) (auto simp: count_def)

lemma tally_spawnLoop:
  assumes "spawnLoop e gs occ s = Some (s', b)" "tally s"
  shows "tally s'"
proof -
  have "if b then tally s' else tally s'"
  proof (rule spawnLoop_rule[OF assms(1), where Q = "\<lambda>gs. tally" and R = tally])
    show "tally s" by fact
  next
    fix gate rest s a asg' k'
    assume t: "tally s"
      and new: "Agent_new e (grid s) gate (assigned s) (seatBlocks s) (blockToCorridorCells s)
          ((config s)\<lparr>BACK_PREF := max 0 (BACK_PREF (config s)
              * backPrefMultiplier (spawned s) (NUM_AGENTS (config s)))\<rparr>)
          (gates s) (draws s) = Some (a, asg', k')"
    from Agent_new_flags[OF new] have "\<not> seated a" by simp
    with t show "case (if willStand a then seat a else None) of
           None \<Rightarrow> tally (s\<lparr>agents := agents s @ [a], spawned := spawned s + 1,
                              assigned := asg', draws := k'\<rparr>)
         | Some (r, c) \<Rightarrow>
             (case grid_set (grid s) r c STANDING of
                None \<Rightarrow> tally (s\<lparr>agents := agents s @ [a], spawned := spawned s + 1,
                              assigned := asg', draws := k'\<rparr>)
              | Some g' \<Rightarrow> tally (s\<lparr>agents := agents s @ [a], spawned := spawned s + 1,
                              assigned := asg', draws := k', grid := g'\<rparr>))"
      by (auto simp: tally_def split: option.splits)
  qed
  then show ?thesis by (simp split: if_splits)
qed

lemma tally_update:
  assumes "update e s = Some (s', r)" "tally s"
  shows "tally s'"
  using update_Some[OF assms(1)]
proof (elim disjE exE conjE)
  assume "s' = s" with assms(2) show ?thesis by simp
next
  fix s1 assume sl: "spawnLoop e (gates s)
               (set (map pos (filter (\<lambda>a. \<not> seated a \<and> \<not> standing a) (agents s)))) s
              = Some (s1, True)" and s': "s' = s1\<lparr>completed := True\<rparr>"
  from tally_spawnLoop[OF sl assms(2)] s' show ?thesis by (simp add: tally_def)
next
  fix s1 as' g' ch c assume sl: "spawnLoop e (gates s)
               (set (map pos (filter (\<lambda>a. \<not> seated a \<and> \<not> standing a) (agents s)))) s
              = Some (s1, False)"
    and ua: "updateAgents (agents s1) (grid s1) = (as', g')"
    and s': "s' = s1\<lparr>agents := as', grid := g', time := time s1 + 1, chart := ch,
                       completed := c\<rparr>"
  from tally_spawnLoop[OF sl assms(2)] have t1: "tally s1" .
  from updateAgents_all2[OF ua] have
    all2: "list_all2 (\<lambda>a a'. \<not> (seated a \<and> standing a) \<longrightarrow> \<not> (seated a' \<and> standing a')) (agents s1) as'"
    by (rule list_all2_mono) simp
  then have len: "length as' = length (agents s1)" by (simp add: list_all2_lengthD)
  have "\<forall>a' \<in> set as'. \<not> (seated a' \<and> standing a')"
  proof
    fix a' assume "a' \<in> set as'"
    then obtain i where i: "i < length as'" "as' ! i = a'" by (auto simp: in_set_conv_nth)
    with all2 len have "\<not> (seated (agents s1 ! i) \<and> standing (agents s1 ! i)) \<longrightarrow> \<not> (seated a' \<and> standing a')"
      by (auto simp: list_all2_conv_all_nth)
    moreover from t1 i len have "\<not> (seated (agents s1 ! i) \<and> standing (agents s1 ! i))"
      by (simp add: tally_def)
    ultimately show "\<not> (seated a' \<and> standing a')" by simp
  qed
  with t1 len s' show ?thesis by (simp add: tally_def)
qed

lemma tally_reachable: "reachable e P s \<Longrightarrow> tally s"
proof (induction rule: reachable.induct)
  case (constructed cfg k)
  then show ?case by (simp add: tally_def SimulationEngine_def)
next
  case (initialized s)
  then show ?case by (auto simp: tally_def initialize_def Let_def split: option.splits)
next
  case (updated s s' r)
  then show ?case by (auto intro: tally_update)
next
  case (reconfigured s cfg)
  then show ?case by (simp add: tally_def)
qed

text \<open>
  C1: in every state the engine can reach, in particular at the end of every
  \<open>update()\<close>, the seated, standing and moving counts of \<open>getStats\<close> add up to the
  spawned counter, and no agent is both seated and standing (so every spawned agent is
  in exactly one of the three states).
\<close>

theorem stats_partition:
  assumes "reachable e P s"
  shows "stats_seated (getStats s) + stats_standing (getStats s) + stats_moving (getStats s)
           = stats_spawned (getStats s)
         \<and> (\<forall>a \<in> set (agents s). \<not> (seated a \<and> standing a))"
  using tally_reachable[OF assms] count_partition[of "agents s"]
  by (simp add: getStats_def tally_def)


subsection \<open>Runs\<close>

lemma run_ticks_reachable:
  "reachable e P s \<Longrightarrow> run_ticks e n s = Some s' \<Longrightarrow> reachable e P s'"
proof (induction n arbitrary: s)
  case 0 then show ?case by simp
next
  case (Suc n)
  then show ?case by (auto split: option.splits intro: reachable.updated)
qed

lemma state_after_reachable: "P cfg \<Longrightarrow> reachable e P (state_after e n cfg)"
proof -
  assume P: "P cfg"
  have r0: "reachable e P (SimulationEngine cfg 0)" using P by (rule reachable.constructed)
  then have r1: "reachable e P (fst (initialize (SimulationEngine cfg 0)))"
    by (rule reachable.initialized)
  show ?thesis
    using r0 run_ticks_reachable[OF r1]
    by (auto simp: state_after_def split: option.splits)
qed

theorem stats_partition_witness:
  "reachable (const_env (9 / 10)) (\<lambda>cfg. True) (state_after (const_env (9 / 10)) 11 (small_config False))
   \<and> getStats (state_after (const_env (9 / 10)) 11 (small_config False))
       = \<lparr>stats_time = 11, stats_spawned = 11, stats_seated = 1, stats_standing = 1,
          stats_moving = 9\<rparr>
   \<and> stats_seated (getStats (state_after (const_env (9 / 10)) 11 (small_config False)))
     + stats_standing (getStats (state_after (const_env (9 / 10)) 11 (small_config False)))
     + stats_moving (getStats (state_after (const_env (9 / 10)) 11 (small_config False)))
     = stats_spawned (getStats (state_after (const_env (9 / 10)) 11 (small_config False)))"
proof -
  have r: "reachable (const_env (9 / 10)) (\<lambda>cfg. True)
             (state_after (const_env (9 / 10)) 11 (small_config False))"
    by (rule state_after_reachable) simp
  have v: "getStats (state_after (const_env (9 / 10)) 11 (small_config False))
       = \<lparr>stats_time = 11, stats_spawned = 11, stats_seated = 1, stats_standing = 1,
          stats_moving = 9\<rparr>"
    by code_simp
  from stats_partition[OF r] r v show ?thesis by simp
qed

subsection \<open>The assigned set without the feature\<close>

lemma unassigned_spawnLoop:
  assumes "spawnLoop e gs occ s = Some (s', b)"
    and "\<not> FEATURE_ASSIGNED_SEATS (config s)" "assigned s = {}"
  shows "assigned s' = {}"
proof -
  let ?Q = "\<lambda>s. \<not> FEATURE_ASSIGNED_SEATS (config s) \<and> assigned s = {}"
  have "if b then ?Q s' else ?Q s'"
  proof (rule spawnLoop_rule[OF assms(1), where Q = "\<lambda>gs. ?Q" and R = ?Q])
    show "?Q s" using assms by simp
  next
    fix gate rest s a asg' k'
    assume q: "?Q s"
      and new: "Agent_new e (grid s) gate (assigned s) (seatBlocks s) (blockToCorridorCells s)
          ((config s)\<lparr>BACK_PREF := max 0 (BACK_PREF (config s)
              * backPrefMultiplier (spawned s) (NUM_AGENTS (config s)))\<rparr>)
          (gates s) (draws s) = Some (a, asg', k')"
    from q have "\<not> FEATURE_ASSIGNED_SEATS ((config s)\<lparr>BACK_PREF := max 0 (BACK_PREF (config s)
              * backPrefMultiplier (spawned s) (NUM_AGENTS (config s)))\<rparr>)" by simp
    from Agent_new_assigned_off[OF new this] have "asg' = assigned s" .
    with q show "case (if willStand a then seat a else None) of
           None \<Rightarrow> ?Q (s\<lparr>agents := agents s @ [a], spawned := spawned s + 1,
                              assigned := asg', draws := k'\<rparr>)
         | Some (r, c) \<Rightarrow>
             (case grid_set (grid s) r c STANDING of
                None \<Rightarrow> ?Q (s\<lparr>agents := agents s @ [a], spawned := spawned s + 1,
                              assigned := asg', draws := k'\<rparr>)
              | Some g' \<Rightarrow> ?Q (s\<lparr>agents := agents s @ [a], spawned := spawned s + 1,
                              assigned := asg', draws := k', grid := g'\<rparr>))"
      by (auto split: option.splits)
  qed
  then show ?thesis by (simp split: if_splits)
qed

lemma unassigned_reachable:
  "reachable e (\<lambda>cfg. \<not> FEATURE_ASSIGNED_SEATS cfg) s \<Longrightarrow> assigned s = {}"
proof (induction rule: reachable.induct)
  case (constructed cfg k)
  then show ?case by (simp add: SimulationEngine_def)
next
  case (initialized s)
  then show ?case by (auto simp: initialize_def Let_def split: option.splits)
next
  case (updated s s' r)
  from reachable_config[OF updated(1)] have off: "\<not> FEATURE_ASSIGNED_SEATS (config s)" .
  from update_Some[OF updated(2)] show ?case
  proof (elim disjE exE conjE)
    assume "s' = s" with updated show ?thesis by simp
  next
    fix s1 assume "spawnLoop e (gates s)
               (set (map pos (filter (\<lambda>a. \<not> seated a \<and> \<not> standing a) (agents s)))) s
              = Some (s1, True)" "s' = s1\<lparr>completed := True\<rparr>"
    with unassigned_spawnLoop[OF _ off updated(3)] show ?thesis by simp
  next
    fix s1 as' g' ch c assume "spawnLoop e (gates s)
               (set (map pos (filter (\<lambda>a. \<not> seated a \<and> \<not> standing a) (agents s)))) s
              = Some (s1, False)"
      "s' = s1\<lparr>agents := as', grid := g', time := time s1 + 1, chart := ch, completed := c\<rparr>"
    with unassigned_spawnLoop[OF _ off updated(3)] show ?thesis by simp
  qed
next
  case (reconfigured s cfg)
  then show ?case by simp
qed

text \<open>
  C10: in every run whose configuration keeps \<open>FEATURE_ASSIGNED_SEATS\<close> disabled the
  assigned set is empty in every state (after construction, after \<open>initialize\<close>, after
  every tick).  The check against it in \<open>pickSeatInBlock\<close> therefore excludes no seat:
  the free seats of a row are all its \<open>SEAT\<close> cells.  And nothing keeps two moving
  agents from the same target: in the small hall, with every draw equal to 0.9, the
  two agents there are after two ticks are both still moving towards seat (13, 7).
\<close>

theorem assigned_set_unused:
  assumes "reachable e (\<lambda>cfg. \<not> FEATURE_ASSIGNED_SEATS cfg) s"
  shows "assigned s = {}
    \<and> (\<forall>g r c0 c1. freeSeatCols g (assigned s) r c0 c1
          = map_option (\<lambda>cs. map fst (filter (\<lambda>(c, v). v = Some SEAT) cs)) (rowCells g r c0 c1))
    \<and> map (\<lambda>a. (seated a, standing a, seat a))
          (agents (state_after (const_env (9 / 10)) 2 (small_config False)))
        = [(False, False, Some (13, 7)), (False, False, Some (13, 7))]"
proof (intro conjI allI)
  show e: "assigned s = {}" by (rule unassigned_reachable[OF assms])
  show "freeSeatCols g (assigned s) r c0 c1
          = map_option (\<lambda>cs. map fst (filter (\<lambda>(c, v). v = Some SEAT) cs)) (rowCells g r c0 c1)"
    for g r c0 c1
    by (simp add: freeSeatCols_def e)
  show "map (\<lambda>a. (seated a, standing a, seat a))
          (agents (state_after (const_env (9 / 10)) 2 (small_config False)))
        = [(False, False, Some (13, 7)), (False, False, Some (13, 7))]"
    by code_simp
qed

theorem assigned_set_unused_witness:
  "reachable (const_env (9 / 10)) (\<lambda>cfg. \<not> FEATURE_ASSIGNED_SEATS cfg)
     (state_after (const_env (9 / 10)) 2 (small_config False))
   \<and> assigned (state_after (const_env (9 / 10)) 2 (small_config False)) = {}
   \<and> length (agents (state_after (const_env (9 / 10)) 2 (small_config False))) = 2"
proof -
  have r: "reachable (const_env (9 / 10)) (\<lambda>cfg. \<not> FEATURE_ASSIGNED_SEATS cfg)
     (state_after (const_env (9 / 10)) 2 (small_config False))"
    by (rule state_after_reachable) (simp add: small_config_def)
  from assigned_set_unused[OF r]
  have m: "map (\<lambda>a. (seated a, standing a, seat a))
          (agents (state_after (const_env (9 / 10)) 2 (small_config False)))
        = [(False, False, Some (13, 7)), (False, False, Some (13, 7))]" by simp
  have "length (agents (state_after (const_env (9 / 10)) 2 (small_config False))) = 2"
    using arg_cong[OF m, of length] by simp
  with assigned_set_unused[OF r] r show ?thesis by simp
qed

subsection \<open>The assigned set with the feature\<close>

lemma seatTargets_append:
  "seatTargets (as @ [a]) = seatTargets as @ (if willStand a then [] else case seat a of None \<Rightarrow> [] | Some st \<Rightarrow> [st])"
  by (simp add: seatTargets_def map_filter_def split: option.splits)

lemma seatTargets_all2:
  "list_all2 (\<lambda>a a'. willStand a' = willStand a \<and> seat a' = seat a) as as' \<Longrightarrow>
   seatTargets as' = seatTargets as"
  by (induction as as' rule: list_all2_induct) (auto simp: seatTargets_def map_filter_def)

lemma booked_spawnLoop:
  assumes "spawnLoop e gs occ s = Some (s', b)"
    and "FEATURE_ASSIGNED_SEATS (config s)" "booked s"
  shows "booked s'"
proof -
  let ?Q = "\<lambda>s. FEATURE_ASSIGNED_SEATS (config s) \<and> booked s"
  have "if b then ?Q s' else ?Q s'"
  proof (rule spawnLoop_rule[OF assms(1), where Q = "\<lambda>gs. ?Q" and R = ?Q])
    show "?Q s" using assms by simp
  next
    fix gate rest s a asg' k'
    assume q: "?Q s"
      and new: "Agent_new e (grid s) gate (assigned s) (seatBlocks s) (blockToCorridorCells s)
          ((config s)\<lparr>BACK_PREF := max 0 (BACK_PREF (config s)
              * backPrefMultiplier (spawned s) (NUM_AGENTS (config s)))\<rparr>)
          (gates s) (draws s) = Some (a, asg', k')"
    from q have "FEATURE_ASSIGNED_SEATS ((config s)\<lparr>BACK_PREF := max 0 (BACK_PREF (config s)
              * backPrefMultiplier (spawned s) (NUM_AGENTS (config s)))\<rparr>)" by simp
    from Agent_new_assigned_on[OF new this]
    have "distinct (seatTargets (agents s @ [a])) \<and> set (seatTargets (agents s @ [a])) \<subseteq> asg'"
      using q by (auto simp: booked_def seatTargets_append)
    with q show "case (if willStand a then seat a else None) of
           None \<Rightarrow> ?Q (s\<lparr>agents := agents s @ [a], spawned := spawned s + 1,
                              assigned := asg', draws := k'\<rparr>)
         | Some (r, c) \<Rightarrow>
             (case grid_set (grid s) r c STANDING of
                None \<Rightarrow> ?Q (s\<lparr>agents := agents s @ [a], spawned := spawned s + 1,
                              assigned := asg', draws := k'\<rparr>)
              | Some g' \<Rightarrow> ?Q (s\<lparr>agents := agents s @ [a], spawned := spawned s + 1,
                              assigned := asg', draws := k', grid := g'\<rparr>))"
      by (auto simp: booked_def split: option.splits)
  qed
  then show ?thesis by (simp split: if_splits)
qed

lemma booked_reachable:
  "reachable e FEATURE_ASSIGNED_SEATS s \<Longrightarrow> booked s"
proof (induction rule: reachable.induct)
  case (constructed cfg k)
  then show ?case by (simp add: SimulationEngine_def booked_def seatTargets_def map_filter_def)
next
  case (initialized s)
  show ?case
  proof (cases "buildGrid (config s)")
    case None
    with initialized show ?thesis by (simp add: initialize_def booked_def)
  next
    case (Some g)
    then show ?thesis
      by (simp add: initialize_def Let_def booked_def seatTargets_def map_filter_def)
  qed
next
  case (updated s s' r)
  from reachable_config[OF updated(1)] have on: "FEATURE_ASSIGNED_SEATS (config s)" .
  from update_Some[OF updated(2)] show ?case
  proof (elim disjE exE conjE)
    assume "s' = s" with updated show ?thesis by simp
  next
    fix s1 assume "spawnLoop e (gates s)
               (set (map pos (filter (\<lambda>a. \<not> seated a \<and> \<not> standing a) (agents s)))) s
              = Some (s1, True)" "s' = s1\<lparr>completed := True\<rparr>"
    with booked_spawnLoop[OF _ on updated(3)] show ?thesis by (simp add: booked_def)
  next
    fix s1 as' g' ch c assume sl: "spawnLoop e (gates s)
               (set (map pos (filter (\<lambda>a. \<not> seated a \<and> \<not> standing a) (agents s)))) s
              = Some (s1, False)"
      and ua: "updateAgents (agents s1) (grid s1) = (as', g')"
      and s': "s' = s1\<lparr>agents := as', grid := g', time := time s1 + 1, chart := ch, completed := c\<rparr>"
    from booked_spawnLoop[OF sl on updated(3)] have b1: "booked s1" .
    from updateAgents_all2[OF ua]
    have "list_all2 (\<lambda>a a'. willStand a' = willStand a \<and> seat a' = seat a) (agents s1) as'"
      by (rule list_all2_mono) simp
    then have "seatTargets as' = seatTargets (agents s1)" by (rule seatTargets_all2)
    with b1 s' show ?thesis by (simp add: booked_def)
  qed
next
  case (reconfigured s cfg)
  then show ?case by (simp add: booked_def)
qed

text \<open>
  C7: \<open>pickSeatInBlock\<close> never returns a seat that is in the assigned set; with
  \<open>FEATURE_ASSIGNED_SEATS\<close> enabled, the constructor of an agent that gets a seat adds
  that seat, which was not in the set before, to the assigned set (before the agent
  has moved at all); and so in every run with the feature enabled the seats handed to
  agents are pairwise different and all in the assigned set: no seat is handed out
  twice, whether its agent is still en route or has arrived.
\<close>

theorem assigned_seats_exclusive:
  "(pickSeatInBlock e g blk asg blocks cfg thr k = (Some st, k') \<longrightarrow> st \<notin> asg)
   \<and> (FEATURE_ASSIGNED_SEATS cfg
        \<and> Agent_new e g spawn asg blocks b2c cfg gts k = Some (a, asg', k'')
        \<and> \<not> willStand a \<and> seat a = Some st2
      \<longrightarrow> st2 \<notin> asg \<and> asg' = insert st2 asg)
   \<and> (reachable e FEATURE_ASSIGNED_SEATS s
      \<longrightarrow> distinct (seatTargets (agents s)) \<and> set (seatTargets (agents s)) \<subseteq> assigned s)"
proof (intro conjI impI)
  assume "pickSeatInBlock e g blk asg blocks cfg thr k = (Some st, k')"
  from pickSeatInBlock_sound[OF this] show "st \<notin> asg" by simp
next
  assume h: "FEATURE_ASSIGNED_SEATS cfg
        \<and> Agent_new e g spawn asg blocks b2c cfg gts k = Some (a, asg', k'')
        \<and> \<not> willStand a \<and> seat a = Some st2"
  then have new: "Agent_new e g spawn asg blocks b2c cfg gts k = Some (a, asg', k'')"
    and on: "FEATURE_ASSIGNED_SEATS cfg" by simp_all
  from Agent_new_assigned_on[OF new on] h show "st2 \<notin> asg" "asg' = insert st2 asg" by auto
next
  assume r: "reachable e FEATURE_ASSIGNED_SEATS s"
  from booked_reachable[OF r]
  show "distinct (seatTargets (agents s))" "set (seatTargets (agents s)) \<subseteq> assigned s"
    by (simp_all add: booked_def)
qed


theorem assigned_seats_exclusive_witness:
  "pickSeatInBlock (const_env (9 / 10)) (grid (state_after (const_env (9 / 10)) 1 (small_config True)))
       (Some 1) (assigned (state_after (const_env (9 / 10)) 1 (small_config True)))
       (seatBlocks (state_after (const_env (9 / 10)) 1 (small_config True)))
       (small_config True) DEFAULT_ROW_THRESHOLD 0 = (Some (13, 6), 6)
   \<and> (13, 7) \<in> assigned (state_after (const_env (9 / 10)) 1 (small_config True))
   \<and> (13, 6) \<notin> assigned (state_after (const_env (9 / 10)) 1 (small_config True))
   \<and> map_option (\<lambda>(a, asg', k). (willStand a, seat a, (13, 6) \<in> asg'))
        (Agent_new (const_env (9 / 10)) (grid (state_after (const_env (9 / 10)) 1 (small_config True)))
           (19, 10) (assigned (state_after (const_env (9 / 10)) 1 (small_config True)))
           (seatBlocks (state_after (const_env (9 / 10)) 1 (small_config True)))
           (blockToCorridorCells (state_after (const_env (9 / 10)) 1 (small_config True)))
           (small_config True) (gates (state_after (const_env (9 / 10)) 1 (small_config True))) 0)
       = Some (False, Some (13, 6), True)
   \<and> reachable (const_env (9 / 10)) FEATURE_ASSIGNED_SEATS
         (state_after (const_env (9 / 10)) 2 (small_config True))
   \<and> seatTargets (agents (state_after (const_env (9 / 10)) 2 (small_config True)))
       = [(13, 7), (13, 6)]
   \<and> distinct (seatTargets (agents (state_after (const_env (9 / 10)) 2 (small_config True))))"
proof -
  let ?E = "const_env (9 / 10)"
  let ?D1 = "state_after ?E 1 (small_config True)"
  let ?D2 = "state_after ?E 2 (small_config True)"
  have on: "FEATURE_ASSIGNED_SEATS (small_config True)" by (simp add: small_config_def)
  have pick: "pickSeatInBlock ?E (grid ?D1) (Some 1) (assigned ?D1) (seatBlocks ?D1)
       (small_config True) DEFAULT_ROW_THRESHOLD 0 = (Some (13, 6), 6)"
    by code_simp
  have asg: "(13, 7) \<in> assigned ?D1" by code_simp
  note T1 = assigned_seats_exclusive[THEN conjunct1, rule_format, OF pick]
  have new: "map_option (\<lambda>(a, asg', k). (willStand a, seat a, (13, 6) \<in> asg'))
        (Agent_new ?E (grid ?D1) (19, 10) (assigned ?D1) (seatBlocks ?D1)
           (blockToCorridorCells ?D1) (small_config True) (gates ?D1) 0)
       = Some (False, Some (13, 6), True)"
    by code_simp
  then obtain a asg' k where
    a: "Agent_new ?E (grid ?D1) (19, 10) (assigned ?D1) (seatBlocks ?D1)
           (blockToCorridorCells ?D1) (small_config True) (gates ?D1) 0 = Some (a, asg', k)"
    and f: "\<not> willStand a" "seat a = Some (13, 6)"
    by (auto simp: map_option_case split: option.splits)
  have T2: "(13, 6) \<notin> assigned ?D1 \<and> asg' = insert (13, 6) (assigned ?D1)"
    using assigned_seats_exclusive[THEN conjunct2, THEN conjunct1, rule_format,
        of "small_config True" ?E "grid ?D1" "(19, 10)" "assigned ?D1" "seatBlocks ?D1"
           "blockToCorridorCells ?D1" "gates ?D1" 0 a asg' k "(13, 6)"]
      on a f by simp
  have r: "reachable ?E FEATURE_ASSIGNED_SEATS ?D2"
    by (rule state_after_reachable) (rule on)
  have t: "seatTargets (agents ?D2) = [(13, 7), (13, 6)]" by code_simp
  note T3 = assigned_seats_exclusive[THEN conjunct2, THEN conjunct2, rule_format, OF r]
  from pick asg T1 new T2 r t T3 show ?thesis by simp
qed

subsection \<open>Terminal agents do not share a cell\<close>

text \<open>paths end at the target\<close>

lemma leg_last: "a \<noteq> b \<Longrightarrow> leg a b \<noteq> [] \<and> last (leg a b) = b"
proof (cases "a \<le> b")
  case True
  assume "a \<noteq> b"
  with True have "[a + 1 .. b] = [a + 1 .. b - 1] @ [b]" by (simp add: upto_rec2)
  with True show ?thesis by (simp add: leg_def)
next
  case False
  then have "[b .. a - 1] = b # [b + 1 .. a - 1]" by (simp add: upto_rec1)
  with False show ?thesis by (simp add: leg_def)
qed

lemma leg_up_last: "b < a \<Longrightarrow> leg_up a b \<noteq> [] \<and> last (leg_up a b) = b"
proof -
  assume "b < a"
  then have "[b .. a - 1] = b # [b + 1 .. a - 1]" by (simp add: upto_rec1)
  then show ?thesis by (simp add: leg_up_def)
qed

lemma leg_up_empty: "a \<le> b \<Longrightarrow> leg_up a b = []"
  by (simp add: leg_up_def)

lemma computeSimplePath_last:
  assumes "computeSimplePath spawn corr st turnRow = Some p" "fst st \<le> turnRow"
  shows "last (spawn # p) = st"
proof -
  obtain r c where spawn: "spawn = (r, c)" by (cases spawn)
  obtain r1 c1 where st: "st = (r1, c1)" by (cases st)
  from assms(1) spawn st have p: "p = map (\<lambda>rr. (rr, c)) (leg r turnRow)
           @ map (\<lambda>cc. (turnRow, cc)) (leg c corr)
           @ map (\<lambda>rr. (rr, corr)) (leg_up turnRow r1)
           @ map (\<lambda>cc. (r1, cc)) (leg corr c1)"
    by (simp add: computeSimplePath_eq)
  from assms(2) st have le: "r1 \<le> turnRow" by simp
  show ?thesis
  proof (cases "corr = c1")
    case False
    with leg_last[of corr c1] p spawn st show ?thesis by (simp add: last_map)
  next
    case c1: True
    show ?thesis
    proof (cases "r1 < turnRow")
      case True
      with leg_up_last[of r1 turnRow] p spawn st c1 show ?thesis
        by (simp add: last_map leg_same)
    next
      case False
      with le have t: "turnRow = r1" by simp
      show ?thesis
      proof (cases "c = corr")
        case False
        with leg_last[of c corr] p spawn st c1 t show ?thesis
          by (simp add: last_map leg_same leg_up_empty)
      next
        case c: True
        show ?thesis
        proof (cases "r = turnRow")
          case False
          with leg_last[of r turnRow] p spawn st c1 t c show ?thesis
            by (simp add: last_map leg_same leg_up_empty)
        next
          case True
          with p spawn st c1 t c show ?thesis by (simp add: leg_same leg_up_empty)
        qed
      qed
    qed
  qed
qed

text \<open>standing candidates\<close>

lemma standingRow_mem:
  "x \<in> set (standingRow g r) \<Longrightarrow>
     fst x = r \<and> cells g x \<noteq> Some STANDING \<and> cells g x \<noteq> Some SEAT"
  by (auto simp: standingRow_def)

lemma freeStanding_mem:
  "x \<in> set (freeStanding g) \<Longrightarrow>
     14 \<le> fst x \<and> fst x \<le> 19 \<and> cells g x \<noteq> Some STANDING"
  by (auto simp: freeStanding_def dest: standingRow_mem)

lemma find_SomeD: "find P xs = Some x \<Longrightarrow> x \<in> set xs \<and> P x"
  by (induction xs) (auto split: if_splits)

lemma findStandingPosition_free:
  assumes rows: "20 \<le> nrows g" and free: "freeStanding g \<noteq> []"
    and u: "0 \<le> rng e k" "rng e k < 1"
  shows "\<exists>sp. findStandingPosition e g k = (Some sp, k + 1) \<and> sp \<in> set (freeStanding g)"
proof -
  have valid: "\<forall>r \<in> set [19, 18, 17, 16, 15, 14::int]. 0 \<le> r \<and> r < nrows g" using rows by simp
  from free obtain r where r: "r \<in> set [19, 18, 17, 16, 15, 14::int]" "standingRow g r \<noteq> []"
    by (auto simp: freeStanding_def)
  then obtain r' where f: "find (\<lambda>r. standingRow g r \<noteq> []) [19, 18, 17, 16, 15, 14] = Some r'"
    by (cases "find (\<lambda>r. standingRow g r \<noteq> []) [19, 18, 17, 16, 15, 14]")
       (auto simp: find_None_iff simp del: find.simps)
  from find_SomeD[OF f]
  have r': "r' \<in> set [19, 18, 17, 16, 15, 14::int]" "standingRow g r' \<noteq> []"
    by simp_all
  let ?c = "standingRow g r'"
  have scan: "standingScan g [19, 18, 17, 16, 15, 14] = Some (Some ?c)"
    using standingScan_rows[OF valid] f by simp
  have len: "0 < length ?c" using r' by simp
  have lo: "0 \<le> \<lfloor>rng e k * real (length ?c)\<rfloor>" using u by simp
  have "rng e k * real (length ?c) < real (length ?c)" using u len by simp
  then have hi: "\<lfloor>rng e k * real (length ?c)\<rfloor> < int (length ?c)" by linarith
  from lo hi have "nth_opt ?c \<lfloor>rng e k * real (length ?c)\<rfloor>
      = Some (?c ! nat \<lfloor>rng e k * real (length ?c)\<rfloor>)"
    by (simp add: nth_opt_def)
  moreover have "?c ! nat \<lfloor>rng e k * real (length ?c)\<rfloor> \<in> set ?c"
    using lo hi by (intro nth_mem) linarith
  moreover have "set ?c \<subseteq> set (freeStanding g)" using r' by (auto simp: freeStanding_def)
  ultimately show ?thesis using scan by (auto simp: findStandingPosition_def)
qed

lemma standingRow_distinct: "distinct (standingRow g r)"
  by (simp add: standingRow_def distinct_map inj_on_def)

lemma freeStanding_distinct: "distinct (freeStanding g)"
proof -
  show ?thesis
    by (auto simp: freeStanding_def standingRow_distinct dest!: standingRow_mem)
qed

lemma filter_neq_absent: "x \<notin> set xs \<Longrightarrow> filter (\<lambda>y. y \<noteq> x) xs = xs"
  by (induction xs) auto

lemma length_filter_neq:
  "distinct xs \<Longrightarrow> length xs \<le> length (filter (\<lambda>y. y \<noteq> x) xs) + 1"
  by (induction xs) (auto simp: filter_neq_absent)

lemma standingRow_reserve:
  assumes "g' = g\<lparr>cells := (cells g)(sp := Some STANDING)\<rparr>"
  shows "standingRow g' r = filter (\<lambda>y. y \<noteq> sp) (standingRow g r)"
proof -
  have "filter (\<lambda>c. cells g' (r, c) \<notin> {Some SEAT, Some GATE, Some SEATED_AGENT, Some STANDING}) cs
        = filter (\<lambda>c. (r, c) \<noteq> sp \<and> cells g (r, c) \<notin> {Some SEAT, Some GATE, Some SEATED_AGENT, Some STANDING}) cs"
    for cs
    using assms by (intro filter_cong) auto
  then show ?thesis
    using assms by (simp add: standingRow_def filter_map comp_def conj_commute)
qed

lemma freeStanding_reserve:
  assumes "g' = g\<lparr>cells := (cells g)(sp := Some STANDING)\<rparr>"
  shows "length (freeStanding g) \<le> length (freeStanding g') + 1"
proof -
  have "freeStanding g' = filter (\<lambda>y. y \<noteq> sp) (freeStanding g)"
    by (simp add: freeStanding_def standingRow_reserve[OF assms])
  with length_filter_neq[OF freeStanding_distinct, of g sp] show ?thesis by simp
qed


text \<open>a new agent\<close>

lemma Agent_new_placed:
  assumes new: "Agent_new e g spawn asg blocks b2c cfg gts k = Some (a, asg', k')"
    and u: "\<forall>k. 0 \<le> rng e k \<and> rng e k < 1"
    and on: "FEATURE_ASSIGNED_SEATS cfg"
    and rows: "20 \<le> nrows g" and free: "freeStanding g \<noteq> []"
  shows "\<not> seated a \<and> \<not> standing a
    \<and> (\<exists>t. seat a = Some t \<and> last (pos a # path a) = t
          \<and> (if willStand a then t \<in> set (freeStanding g) \<and> asg' = asg
              else fst t < SEAT_ROWS_END \<and> t \<notin> asg \<and> asg' = insert t asg))"
  using Agent_new_Some[OF new]
proof (elim disjE exE conjE)
  fix blk blk' st k0 k1 k2
  assume p: "pickSeatInBlock e g blk asg blocks cfg DEFAULT_ROW_THRESHOLD k0 = (Some st, k1)"
    and s: "Agent_seatBound e spawn asg b2c cfg blk' st k2 = Some (a, asg', k')"
  from pickSeatInBlock_sound[OF p] have st: "st \<notin> asg" "fst st < SEAT_ROWS_END" by simp_all
  from Agent_seatBound_Some[OF s] on obtain cc k3 where
    a: "pos a = spawn" "\<not> seated a" "\<not> standing a" "\<not> willStand a" "seat a = Some st"
       "asg' = insert st asg"
    and p: "computeSimplePath spawn cc st (PATH_ROW_RANGE_START + \<lfloor>rng e k3 * 4\<rfloor>) = Some (path a)"
    by auto
  have "0 \<le> \<lfloor>rng e k3 * 4\<rfloor>" using u by simp
  with st(2) have "fst st \<le> PATH_ROW_RANGE_START + \<lfloor>rng e k3 * 4\<rfloor>"
    unfolding SEAT_ROWS_END_def PATH_ROW_RANGE_START_def by linarith
  from computeSimplePath_last[OF p this] a st show ?thesis by simp
next
  fix blk k1
  assume w: "Agent_willStand e g spawn asg cfg blk k1 = Some (a, asg', k')"
  from findStandingPosition_free[OF rows free, of e k1] u obtain sp where
    f: "findStandingPosition e g k1 = (Some sp, k1 + 1)" and sp: "sp \<in> set (freeStanding g)"
    by auto
  from Agent_willStand_Some[OF w] f have
    a: "pos a = spawn" "\<not> seated a" "\<not> standing a" "willStand a" "seat a = Some sp" "asg' = asg"
    and p: "computeSimplePath spawn (CORRIDOR_WIDTH cfg) sp 19 = Some (path a)"
    by simp_all
  from freeStanding_mem[OF sp] have "fst sp \<le> 19" by simp
  from computeSimplePath_last[OF p this] a sp show ?thesis by simp
qed

text \<open>an agent's step\<close>

lemma on_targetI:
  "seat a = Some t \<Longrightarrow> (if willStand a then BACK_ROWS_START \<le> fst t else fst t < SEAT_ROWS_END)
   \<Longrightarrow> (if seated a \<or> standing a then pos a = t else last (pos a # path a) = t)
   \<Longrightarrow> on_target a"
  unfolding on_target_def by blast

lemma Agent_update_placed:
  assumes up: "Agent_update a g = (a', g')" and a: "on_target a"
    and T: "\<forall>t \<in> T. BACK_ROWS_START \<le> fst t \<and> cells g t = Some STANDING"
  shows "on_target a' \<and> willStand a' = willStand a \<and> seat a' = seat a \<and> nrows g' = nrows g
       \<and> (\<forall>t \<in> T. cells g' t = Some STANDING)"
proof -
  from a obtain t where t: "seat a = Some t"
    "if willStand a then BACK_ROWS_START \<le> fst t else fst t < SEAT_ROWS_END"
    "if seated a \<or> standing a then pos a = t else last (pos a # path a) = t"
    by (auto simp: on_target_def)
  show ?thesis
  proof (cases "seated a \<or> standing a")
    case True
    with up a T show ?thesis by (auto simp: Agent_update_def)
  next
    case moving: False
    show ?thesis
    proof (cases "path a = []")
      case False
      with moving up have "a' = a\<lparr>pos := hd (path a), path := tl (path a)\<rparr>" "g' = g"
        by (auto simp: Agent_update_def)
      moreover from False have "last (hd (path a) # tl (path a)) = last (pos a # path a)"
        by (cases "path a") auto
      ultimately show ?thesis using t moving T by (auto intro!: on_targetI[of _ t])
    next
      case True
      with moving t have pos: "pos a = t" by simp
      have wr: "grid_set g (fst t) (snd t) v = Some gv \<Longrightarrow>
                nrows gv = nrows g \<and> cells gv = (cells g)(t := Some v)" for v gv
        by (auto simp: grid_set_def split: if_splits)
      show ?thesis
      proof (cases "willStand a")
        case True
        with moving \<open>path a = []\<close> up pos have a': "a' = a\<lparr>standing := True\<rparr>"
          and g': "g' = (case grid_set g (fst t) (snd t) STANDING of None \<Rightarrow> g | Some g' \<Rightarrow> g')"
          by (auto simp: Agent_update_def)
        have "nrows g' = nrows g \<and> (\<forall>t \<in> T. cells g' t = Some STANDING)"
        proof (cases "grid_set g (fst t) (snd t) STANDING")
          case None
          with g' T show ?thesis by simp
        next
          case (Some gv)
          from wr[OF Some] Some g' T show ?thesis by simp
        qed
        moreover from a' t pos have "on_target a'" by (intro on_targetI[of _ t]) simp_all
        ultimately show ?thesis using a' by simp
      next
        case False
        with t have low: "fst t < SEAT_ROWS_END" by simp
        then have notT: "t \<notin> T" using T by (auto simp: SEAT_ROWS_END_def BACK_ROWS_START_def)
        from False moving \<open>path a = []\<close> up pos
        have a': "a' = a\<lparr>standing := True\<rparr> \<or> a' = a\<lparr>seated := True\<rparr>"
          and g': "g' = g \<or> (\<exists>v. grid_set g (fst t) (snd t) v = Some g')"
          by (auto simp: Agent_update_def split: option.splits if_splits)
        have "nrows g' = nrows g \<and> (\<forall>t \<in> T. cells g' t = Some STANDING)"
          using g'
        proof
          assume "g' = g" with T show ?thesis by simp
        next
          assume "\<exists>v. grid_set g (fst t) (snd t) v = Some g'"
          then obtain v where "grid_set g (fst t) (snd t) v = Some g'" ..
          from wr[OF this] notT T show ?thesis by auto
        qed
        moreover from a' have "on_target a'"
        proof
          assume "a' = a\<lparr>standing := True\<rparr>"
          with t pos show ?thesis by (intro on_targetI[of _ t]) simp_all
        next
          assume "a' = a\<lparr>seated := True\<rparr>"
          with t pos show ?thesis by (intro on_targetI[of _ t]) simp_all
        qed
        moreover from a' have "willStand a' = willStand a \<and> seat a' = seat a" by auto
        ultimately show ?thesis by simp
      qed
    qed
  qed
qed

lemma updateAgents_placed:
  assumes "updateAgents as g = (as', g')" "\<forall>a \<in> set as. on_target a"
    and "\<forall>t \<in> T. BACK_ROWS_START \<le> fst t \<and> cells g t = Some STANDING"
  shows "list_all2 (\<lambda>a a'. on_target a' \<and> willStand a' = willStand a \<and> seat a' = seat a
                       \<and> ((seated a \<or> standing a) \<longrightarrow> a' = a)) as as'
       \<and> nrows g' = nrows g \<and> (\<forall>t \<in> T. cells g' t = Some STANDING)"
  using assms
proof (induction as arbitrary: g as' g')
  case Nil then show ?case by simp
next
  case (Cons a as)
  obtain a1 g1 where u: "(if \<not> seated a \<and> \<not> standing a then Agent_update a g else (a, g)) = (a1, g1)"
    by (cases "if \<not> seated a \<and> \<not> standing a then Agent_update a g else (a, g)")
  obtain as1 g2 where r: "updateAgents as g1 = (as1, g2)" by (cases "updateAgents as g1")
  from Cons.prems(1) u r have res: "as' = a1 # as1" "g' = g2" by simp_all
  from Cons.prems(2) have a: "on_target a" by simp
  have step: "on_target a1 \<and> willStand a1 = willStand a \<and> seat a1 = seat a \<and> nrows g1 = nrows g
       \<and> (\<forall>t \<in> T. cells g1 t = Some STANDING) \<and> ((seated a \<or> standing a) \<longrightarrow> a1 = a)"
  proof (cases "\<not> seated a \<and> \<not> standing a")
    case True
    with u have "Agent_update a g = (a1, g1)" by simp
    from Agent_update_placed[OF this a Cons.prems(3)] True show ?thesis by simp
  next
    case False
    with u a Cons.prems(3) show ?thesis by auto
  qed
  then have T1: "\<forall>t \<in> T. BACK_ROWS_START \<le> fst t \<and> cells g1 t = Some STANDING"
    using Cons.prems(3) by simp
  from Cons.prems(2) have "\<forall>a \<in> set as. on_target a" by simp
  from Cons.IH[OF r this T1] step res show ?case by simp
qed

lemma all2_seats:
  "list_all2 (\<lambda>a a'. on_target a' \<and> willStand a' = willStand a \<and> seat a' = seat a
                       \<and> ((seated a \<or> standing a) \<longrightarrow> a' = a)) as as' \<Longrightarrow>
   map seat as' = map seat as \<and> map willStand as' = map willStand as
   \<and> seatTargets as' = seatTargets as \<and> (\<forall>a' \<in> set as'. on_target a')"
  by (induction as as' rule: list_all2_induct) (auto simp: seatTargets_def map_filter_def)


lemma seatTargets_mem:
  "b \<in> set as \<Longrightarrow> \<not> willStand b \<Longrightarrow> seat b = Some t \<Longrightarrow> t \<in> set (seatTargets as)"
  by (force simp: seatTargets_def map_filter_def)

lemma seatTargets_snoc:
  "seatTargets (as @ [a]) = seatTargets as @ (if willStand a then [] else case seat a of None \<Rightarrow> [] | Some st \<Rightarrow> [st])"
  by (simp add: seatTargets_def map_filter_def split: option.splits)
lemma roomy_spawn:
  assumes u: "\<forall>k. 0 \<le> rng e k \<and> rng e k < 1"
    and q: "roomy (gate # rest) s"
    and new: "Agent_new e (grid s) gate (assigned s) (seatBlocks s) (blockToCorridorCells s)
          ((config s)\<lparr>BACK_PREF := bp\<rparr>) (gates s) (draws s) = Some (a, asg', k')"
  shows "case (if willStand a then seat a else None) of
           None \<Rightarrow> roomy rest (s\<lparr>agents := agents s @ [a], spawned := spawned s + 1,
                              assigned := asg', draws := k'\<rparr>)
         | Some (r, c) \<Rightarrow>
             (case grid_set (grid s) r c STANDING of
                None \<Rightarrow> False
              | Some g' \<Rightarrow> roomy rest (s\<lparr>agents := agents s @ [a], spawned := spawned s + 1,
                              assigned := asg', draws := k', grid := g'\<rparr>))"
proof -
  let ?g = "grid s"
  from q have on: "FEATURE_ASSIGNED_SEATS (config s)" and pl: "placed s"
    and rows: "20 \<le> nrows ?g" and room: "length (gate # rest) \<le> length (freeStanding ?g)"
    by (simp_all add: roomy_def)
  from room have free: "freeStanding ?g \<noteq> []" by auto
  from on have on': "FEATURE_ASSIGNED_SEATS ((config s)\<lparr>BACK_PREF := bp\<rparr>)" by simp
  from pl have ot: "\<forall>b \<in> set (agents s). on_target b"
    and dist: "distinct (map seat (agents s))"
    and sub: "set (seatTargets (agents s)) \<subseteq> assigned s"
    and res: "\<forall>b \<in> set (agents s). willStand b \<longrightarrow> (\<forall>t. seat b = Some t \<longrightarrow> cells ?g t = Some STANDING)"
    using rows by (simp_all add: placed_def)
  from Agent_new_placed[OF new u on' rows free] obtain t where
    mv: "\<not> seated a" "\<not> standing a" and t: "seat a = Some t" "last (pos a # path a) = t"
    and alt: "if willStand a then t \<in> set (freeStanding ?g) \<and> asg' = assigned s
              else fst t < SEAT_ROWS_END \<and> t \<notin> assigned s \<and> asg' = insert t (assigned s)"
    by blast
  show ?thesis
  proof (cases "willStand a")
    case True
    obtain r c where rc: "t = (r, c)" by (cases t)
    from alt True have tf: "t \<in> set (freeStanding ?g)" and asg: "asg' = assigned s" by simp_all
    from freeStanding_mem[OF tf] rc have r: "14 \<le> r" "r \<le> 19"
      and ns: "cells ?g t \<noteq> Some STANDING" by simp_all
    let ?g' = "?g\<lparr>cells := (cells ?g)(t := Some STANDING)\<rparr>"
    have gs: "grid_set ?g r c STANDING = Some ?g'"
      using r rows rc by (simp add: grid_set_def)
    let ?s' = "s\<lparr>agents := agents s @ [a], spawned := spawned s + 1,
                  assigned := asg', draws := k', grid := ?g'\<rparr>"
    have a_ot: "on_target a"
      using t True mv r rc by (intro on_targetI[of _ t]) (simp_all add: BACK_ROWS_START_def)
    have fresh: "Some t \<notin> set (map seat (agents s))"
    proof
      assume "Some t \<in> set (map seat (agents s))"
      then obtain b where b: "b \<in> set (agents s)" "seat b = Some t" by auto
      show False
      proof (cases "willStand b")
        case True
        with res b have "cells ?g t = Some STANDING" by blast
        with ns show False by simp
      next
        case False
        with ot b have "fst t < SEAT_ROWS_END" by (auto simp: on_target_def)
        with r rc show False by (simp add: SEAT_ROWS_END_def)
      qed
    qed
    have "placed ?s'"
      unfolding placed_def
    proof (intro conjI impI)
      show "\<forall>b \<in> set (agents ?s'). on_target b" using ot a_ot by simp
      show "distinct (map seat (agents ?s'))" using dist fresh t by simp
      show "set (seatTargets (agents ?s')) \<subseteq> assigned ?s'"
        using sub asg True by (simp add: seatTargets_snoc)
      show "\<forall>b \<in> set (agents ?s'). willStand b \<longrightarrow>
              (\<forall>t. seat b = Some t \<longrightarrow> cells (grid ?s') t = Some STANDING)"
        using res t by auto
    qed
    moreover have "length rest \<le> length (freeStanding ?g')"
      using freeStanding_reserve[of ?g' ?g t] room by simp
    ultimately have "roomy rest ?s'" using on rows by (simp add: roomy_def)
    with True t rc gs show ?thesis by simp
  next
    case False
    with alt have low: "fst t < SEAT_ROWS_END" and nin: "t \<notin> assigned s"
      and asg: "asg' = insert t (assigned s)" by simp_all
    let ?s' = "s\<lparr>agents := agents s @ [a], spawned := spawned s + 1,
                  assigned := asg', draws := k'\<rparr>"
    have a_ot: "on_target a"
      using t False mv low by (intro on_targetI[of _ t]) simp_all
    have fresh: "Some t \<notin> set (map seat (agents s))"
    proof
      assume "Some t \<in> set (map seat (agents s))"
      then obtain b where b: "b \<in> set (agents s)" "seat b = Some t" by auto
      show False
      proof (cases "willStand b")
        case True
        with ot b have "BACK_ROWS_START \<le> fst t" by (auto simp: on_target_def)
        with low show False by (simp add: SEAT_ROWS_END_def BACK_ROWS_START_def)
      next
        case False
        from seatTargets_mem[OF b(1) False b(2)] sub nin show False by auto
      qed
    qed
    have "placed ?s'"
      unfolding placed_def
    proof (intro conjI impI)
      show "\<forall>b \<in> set (agents ?s'). on_target b" using ot a_ot by simp
      show "distinct (map seat (agents ?s'))" using dist fresh t by simp
      show "set (seatTargets (agents ?s')) \<subseteq> assigned ?s'"
        using sub asg False t by (auto simp: seatTargets_snoc)
      show "\<forall>b \<in> set (agents ?s'). willStand b \<longrightarrow>
              (\<forall>t. seat b = Some t \<longrightarrow> cells (grid ?s') t = Some STANDING)"
        using res False by auto
    qed
    moreover have "length rest \<le> length (freeStanding ?g)" using room by simp
    ultimately have "roomy rest ?s'" using on rows by (simp add: roomy_def)
    with False show ?thesis by simp
  qed
qed

lemma roomy_spawnLoop:
  assumes sl: "spawnLoop e gs occ s = Some (s', b)"
    and u: "\<forall>k. 0 \<le> rng e k \<and> rng e k < 1"
    and q: "roomy gs s"
  shows "\<not> b \<and> roomy [] s'"
proof -
  have "if b then False else roomy [] s'"
  proof (rule spawnLoop_rule[OF sl, where Q = roomy and R = "\<lambda>s. False"])
    show "roomy gs s" by fact
  next
    fix gate rest s assume "roomy (gate # rest) s"
    then show "roomy rest s" by (simp add: roomy_def)
  next
    fix gate rest s a asg' k'
    assume "roomy (gate # rest) s"
      and "Agent_new e (grid s) gate (assigned s) (seatBlocks s) (blockToCorridorCells s)
          ((config s)\<lparr>BACK_PREF := max 0 (BACK_PREF (config s)
              * backPrefMultiplier (spawned s) (NUM_AGENTS (config s)))\<rparr>)
          (gates s) (draws s) = Some (a, asg', k')"
    from roomy_spawn[OF u this]
    show "case (if willStand a then seat a else None) of
           None \<Rightarrow> roomy rest (s\<lparr>agents := agents s @ [a], spawned := spawned s + 1,
                              assigned := asg', draws := k'\<rparr>)
         | Some (r, c) \<Rightarrow>
             (case grid_set (grid s) r c STANDING of
                None \<Rightarrow> False
              | Some g' \<Rightarrow> roomy rest (s\<lparr>agents := agents s @ [a], spawned := spawned s + 1,
                              assigned := asg', draws := k', grid := g'\<rparr>))" .
  qed
  then show ?thesis by (cases b) simp_all
qed

lemma placed_update:
  assumes up: "update e s = Some (s', r)"
    and u: "\<forall>k. 0 \<le> rng e k \<and> rng e k < 1"
    and on: "FEATURE_ASSIGNED_SEATS (config s)" and pl: "placed s"
    and rows: "20 \<le> nrows (grid s)"
    and room: "length (gates s) \<le> length (freeStanding (grid s))"
  shows "FEATURE_ASSIGNED_SEATS (config s') \<and> placed s'"
  using update_Some[OF up]
proof (elim disjE exE conjE)
  assume "s' = s" with on pl show ?thesis by simp
next
  fix s1 assume sl: "spawnLoop e (gates s)
               (set (map pos (filter (\<lambda>a. \<not> seated a \<and> \<not> standing a) (agents s)))) s
              = Some (s1, True)"
  have "roomy (gates s) s" using on pl rows room by (simp add: roomy_def)
  from roomy_spawnLoop[OF sl u this] show ?thesis by simp
next
  fix s1 as' g' ch c assume sl: "spawnLoop e (gates s)
               (set (map pos (filter (\<lambda>a. \<not> seated a \<and> \<not> standing a) (agents s)))) s
              = Some (s1, False)"
    and ua: "updateAgents (agents s1) (grid s1) = (as', g')"
    and s': "s' = s1\<lparr>agents := as', grid := g', time := time s1 + 1, chart := ch, completed := c\<rparr>"
  have "roomy (gates s) s" using on pl rows room by (simp add: roomy_def)
  from roomy_spawnLoop[OF sl u this] have on1: "FEATURE_ASSIGNED_SEATS (config s1)"
    and pl1: "placed s1" and rows1: "20 \<le> nrows (grid s1)"
    by (simp_all add: roomy_def)
  let ?T = "{t. \<exists>b \<in> set (agents s1). willStand b \<and> seat b = Some t}"
  from pl1 have ot: "\<forall>a \<in> set (agents s1). on_target a" by (simp add: placed_def)
  have T: "\<forall>t \<in> ?T. BACK_ROWS_START \<le> fst t \<and> cells (grid s1) t = Some STANDING"
  proof
    fix t assume "t \<in> ?T"
    then obtain b where b: "b \<in> set (agents s1)" "willStand b" "seat b = Some t" by auto
    with ot have "BACK_ROWS_START \<le> fst t" by (auto simp: on_target_def)
    moreover from pl1 rows1 have "\<forall>b \<in> set (agents s1). willStand b \<longrightarrow>
          (\<forall>t. seat b = Some t \<longrightarrow> cells (grid s1) t = Some STANDING)"
      unfolding placed_def by blast
    with b have "cells (grid s1) t = Some STANDING" by blast
    ultimately show "BACK_ROWS_START \<le> fst t \<and> cells (grid s1) t = Some STANDING" by simp
  qed
  from updateAgents_placed[OF ua ot T] have
    all2: "list_all2 (\<lambda>a a'. on_target a' \<and> willStand a' = willStand a \<and> seat a' = seat a
                       \<and> ((seated a \<or> standing a) \<longrightarrow> a' = a)) (agents s1) as'"
    and T': "\<forall>t \<in> ?T. cells g' t = Some STANDING" by simp_all
  from all2_seats[OF all2] have seats: "map seat as' = map seat (agents s1)"
    and st: "seatTargets as' = seatTargets (agents s1)" and ot': "\<forall>a' \<in> set as'. on_target a'"
    by simp_all
  have ws: "\<forall>b' \<in> set as'. willStand b' \<longrightarrow> (\<forall>t. seat b' = Some t \<longrightarrow> t \<in> ?T)"
  proof (intro ballI impI allI)
    fix b' t assume "b' \<in> set as'" "willStand b'" "seat b' = Some t"
    then obtain i where i: "i < length as'" "as' ! i = b'" by (auto simp: in_set_conv_nth)
    with all2 have "willStand (agents s1 ! i) = willStand b'" "seat (agents s1 ! i) = seat b'"
      "i < length (agents s1)"
      by (auto simp: list_all2_conv_all_nth)
    with \<open>willStand b'\<close> \<open>seat b' = Some t\<close> show "t \<in> ?T"
      by (auto intro!: bexI[of _ "agents s1 ! i"])
  qed
  have "placed s'"
    unfolding placed_def
  proof (intro conjI impI)
    show "\<forall>a \<in> set (agents s'). on_target a" using ot' s' by simp
    show "distinct (map seat (agents s'))" using pl1 seats s' by (simp add: placed_def)
    show "set (seatTargets (agents s')) \<subseteq> assigned s'" using pl1 st s' by (simp add: placed_def)
    show "\<forall>a \<in> set (agents s'). willStand a \<longrightarrow> (\<forall>t. seat a = Some t \<longrightarrow> cells (grid s') t = Some STANDING)"
      using ws T' s' by auto
  qed
  with on1 s' show ?thesis by simp
qed

lemma placed_roomy_run:
  assumes "roomy_run e s" and u: "\<forall>k. 0 \<le> rng e k \<and> rng e k < 1"
  shows "FEATURE_ASSIGNED_SEATS (config s) \<and> placed s"
  using assms(1)
proof (induction rule: roomy_run.induct)
  case (constructed cfg k)
  then show ?case
    by (simp add: SimulationEngine_def placed_def seatTargets_def map_filter_def)
next
  case (initialized s)
  show ?case
  proof (cases "buildGrid (config s)")
    case None
    with initialized show ?thesis by (simp add: initialize_def placed_def null_grid_def)
  next
    case (Some g)
    with initialized show ?thesis
      by (simp add: initialize_def Let_def placed_def seatTargets_def map_filter_def)
  qed
next
  case (updated s s' r)
  from placed_update[OF updated(4) u _ _ updated(2,3)] updated(5) show ?case by simp
next
  case (reconfigured s cfg)
  then show ?case by (simp add: placed_def)
qed

lemma on_target_terminal:
  "on_target a \<Longrightarrow> seated a \<or> standing a \<Longrightarrow> seat a = Some (pos a)"
  unfolding on_target_def by (elim exE conjE) simp

lemma roomy_ticks_run:
  "roomy_run e s \<Longrightarrow> roomy_ticks e n s = Some s' \<Longrightarrow> roomy_run e s'"
proof (induction n arbitrary: s)
  case 0 then show ?case by simp
next
  case (Suc n)
  then show ?case by (auto split: option.splits if_splits intro: roomy_run.updated)
qed

lemma roomy_after_run:
  assumes "FEATURE_ASSIGNED_SEATS cfg" shows "roomy_run e (roomy_after e n cfg)"
proof -
  have r0: "roomy_run e (SimulationEngine cfg 0)" using assms by (rule roomy_run.constructed)
  then have r1: "roomy_run e (fst (initialize (SimulationEngine cfg 0)))"
    by (rule roomy_run.initialized)
  show ?thesis
    using r0 roomy_ticks_run[OF r1]
    by (auto simp: roomy_after_def split: option.splits)
qed

lemma agentStates_nth:
  "agentStates s = xs \<Longrightarrow> i < length xs \<Longrightarrow>
     pos (agents s ! i) = fst (xs ! i) \<and> seated (agents s ! i) = fst (snd (xs ! i))
     \<and> standing (agents s ! i) = snd (snd (xs ! i)) \<and> length (agents s) = length xs"
  by (auto simp: agentStates_def)

text \<open>
  C2: no two agents in a terminal state (seated or standing) report the same position,
  in every run with \<open>FEATURE_ASSIGNED_SEATS\<close> enabled, random draws that are at least
  0 and below 1, and every tick starting on a grid of at least 20 rows whose back rows
  (14 to 19) offer at least as many standing candidates as there are gates. With the
  feature disabled the property does not hold: two agents choose the same seat, the
  first is seated there and the second is marked standing on the same cell.
\<close>

theorem terminal_agents_apart:
  assumes "\<forall>k. 0 \<le> rng e k \<and> rng e k < 1" and "roomy_run e s"
  shows "\<forall>i j. i < j \<and> j < length (agents s)
            \<and> (seated (agents s ! i) \<or> standing (agents s ! i))
            \<and> (seated (agents s ! j) \<or> standing (agents s ! j))
          \<longrightarrow> pos (agents s ! i) \<noteq> pos (agents s ! j)"
proof (intro allI impI)
  fix i j
  assume h: "i < j \<and> j < length (agents s)
            \<and> (seated (agents s ! i) \<or> standing (agents s ! i))
            \<and> (seated (agents s ! j) \<or> standing (agents s ! j))"
  from placed_roomy_run[OF assms(2,1)] have pl: "placed s" by simp
  then have ot: "\<forall>a \<in> set (agents s). on_target a" and d: "distinct (map seat (agents s))"
    by (simp_all add: placed_def)
  from h have i: "i < length (agents s)" and j: "j < length (agents s)" by simp_all
  from ot i h have pi: "seat (agents s ! i) = Some (pos (agents s ! i))"
    by (intro on_target_terminal) simp_all
  from ot j h have pj: "seat (agents s ! j) = Some (pos (agents s ! j))"
    by (intro on_target_terminal) simp_all
  from h have ij: "i \<noteq> j" by simp
  from d i j ij have "map seat (agents s) ! i \<noteq> map seat (agents s) ! j"
    by (simp only: nth_eq_iff_index_eq length_map not_False_eq_True)
  with i j pi pj show "pos (agents s ! i) \<noteq> pos (agents s ! j)" by auto
qed

theorem terminal_agents_apart_witness:
  "roomy_run (const_env (9 / 10)) (roomy_after (const_env (9 / 10)) 12 (small_config True))
   \<and> seated (agents (roomy_after (const_env (9 / 10)) 12 (small_config True)) ! 0)
   \<and> seated (agents (roomy_after (const_env (9 / 10)) 12 (small_config True)) ! 1)
   \<and> pos (agents (roomy_after (const_env (9 / 10)) 12 (small_config True)) ! 0) = (13, 7)
   \<and> pos (agents (roomy_after (const_env (9 / 10)) 12 (small_config True)) ! 1) = (13, 6)
   \<and> pos (agents (roomy_after (const_env (9 / 10)) 12 (small_config True)) ! 0)
       \<noteq> pos (agents (roomy_after (const_env (9 / 10)) 12 (small_config True)) ! 1)"
proof -
  let ?E = "const_env (9 / 10)"
  let ?S = "roomy_after ?E 12 (small_config True)"
  have u: "\<forall>k. 0 \<le> rng ?E k \<and> rng ?E k < 1" by (simp add: const_env_def)
  have r: "roomy_run ?E ?S" by (rule roomy_after_run) (simp add: small_config_def)
  have v: "agentStates ?S =
     [((13, 7), True, False), ((13, 6), True, False), ((12, 7), False, False),
      ((12, 8), False, False), ((13, 8), False, False), ((14, 8), False, False),
      ((15, 8), False, False), ((16, 8), False, False), ((17, 8), False, False),
      ((18, 8), False, False), ((19, 8), False, False), ((19, 9), False, False)]"
    by code_simp
  note a0 = agentStates_nth[OF v, of 0] and a1 = agentStates_nth[OF v, of 1]
  from terminal_agents_apart[OF u r, rule_format, of 0 1] r a0 a1 show ?thesis by simp
qed

theorem shared_cell_counterexample:
  "1 < length (agents (state_after (const_env (9 / 10)) 11 (small_config False)))
   \<and> seated (agents (state_after (const_env (9 / 10)) 11 (small_config False)) ! 0)
   \<and> standing (agents (state_after (const_env (9 / 10)) 11 (small_config False)) ! 1)
   \<and> pos (agents (state_after (const_env (9 / 10)) 11 (small_config False)) ! 0)
       = pos (agents (state_after (const_env (9 / 10)) 11 (small_config False)) ! 1)"
proof -
  let ?D = "state_after (const_env (9 / 10)) 11 (small_config False)"
  have v: "agentStates ?D =
     [((13, 7), True, False), ((13, 7), False, True), ((13, 7), False, False),
      ((13, 8), False, False), ((14, 8), False, False), ((15, 8), False, False),
      ((16, 8), False, False), ((17, 8), False, False), ((18, 8), False, False),
      ((19, 8), False, False), ((19, 9), False, False)]"
    by code_simp
  note a0 = agentStates_nth[OF v, of 0] and a1 = agentStates_nth[OF v, of 1]
  from a0 a1 show ?thesis by simp
qed

end
